theory Spec2Isabelle
  imports
    Main
    "HOL-Library.Word"
    "HOL-Library.Multiset"
    "HOL-Library.Product_Lexorder"
begin

unbundle bit_operations_syntax

section \<open>Data model of the feature-file context header (FeatCtx.h)\<close>

text \<open>
  Modelled from the spec: the typedef of \<^verbatim>\<open>GID\<close> is declared outside FeatCtx.h (in the
  headers it includes); the specification fixes it as a 16-bit unsigned glyph index.
  \<^verbatim>\<open>Tag\<close> is the 32-bit value built from four characters, \<^verbatim>\<open>Label\<close> is
  \<^verbatim>\<open>typedef uint16_t Label\<close>.
\<close>

type_synonym GID = "16 word"
type_synonym Tag = "32 word"
type_synonym Label = "16 word"

subsection \<open>Lookup labels\<close>

text \<open>
  \<^verbatim>\<open>#define LAB_UNDEF 0xFFFF\<close>, \<^verbatim>\<open>#define REF_LAB (1 << 15)\<close>: both are constants of
  type \<^verbatim>\<open>int\<close>. In \<^verbatim>\<open>IS_REF_LAB(L)\<close> a \<^verbatim>\<open>Label\<close> operand is promoted to \<^verbatim>\<open>int\<close>
  before the comparison and before the bitwise and; the promotion of an unsigned 16-bit
  value is \<open>ucast\<close> into 32 bits.
\<close>

definition LAB_UNDEF :: "32 word" where
  "LAB_UNDEF = 0xFFFF"

definition REF_LAB :: "32 word" where
  "REF_LAB = push_bit 15 1"

definition IS_REF_LAB :: "Label \<Rightarrow> bool" where
  "IS_REF_LAB L = (ucast L \<noteq> LAB_UNDEF \<and> (ucast L AND REF_LAB) \<noteq> 0)"

subsection \<open>Anchors\<close>

text \<open>
  \<^verbatim>\<open>struct AnchorMarkInfo\<close>. The fields \<^verbatim>\<open>x\<close> and \<^verbatim>\<open>y\<close> are called \<open>anchor_x\<close> and
  \<open>anchor_y\<close> here. \<^verbatim>\<open>format\<close> is \<^verbatim>\<open>uint32_t\<close>, the two indices are \<^verbatim>\<open>int32_t\<close>, the
  coordinates are \<^verbatim>\<open>int16_t\<close> and \<^verbatim>\<open>contourpoint\<close> is \<^verbatim>\<open>uint16_t\<close>; the signed fields
  are compared through \<open>sint\<close>.
\<close>

record AnchorMarkInfo =
  format :: "32 word"
  markClassIndex :: "32 word"
  componentIndex :: "32 word"
  anchor_x :: "16 word"
  anchor_y :: "16 word"
  contourpoint :: "16 word"
  anchorMarkClassName :: string

definition AnchorMarkInfo_less :: "AnchorMarkInfo \<Rightarrow> AnchorMarkInfo \<Rightarrow> bool" where
  "AnchorMarkInfo_less a rhs =
     (if componentIndex a \<noteq> componentIndex rhs
        then sint (componentIndex a) < sint (componentIndex rhs)
      else if markClassIndex a \<noteq> markClassIndex rhs
        then sint (markClassIndex a) < sint (markClassIndex rhs)
      else if format a \<noteq> format rhs
        then format a < format rhs
      else if anchor_x a \<noteq> anchor_x rhs
        then sint (anchor_x a) < sint (anchor_x rhs)
      else if anchor_y a \<noteq> anchor_y rhs
        then sint (anchor_y a) < sint (anchor_y rhs)
      else if format a = 2 \<and> contourpoint a \<noteq> contourpoint rhs
        then contourpoint a < contourpoint rhs
      else False)"

definition AnchorMarkInfo_eq :: "AnchorMarkInfo \<Rightarrow> AnchorMarkInfo \<Rightarrow> bool" where
  "AnchorMarkInfo_eq a rhs =
     (componentIndex a = componentIndex rhs \<and>
      markClassIndex a = markClassIndex rhs \<and>
      format a = format rhs \<and>
      anchor_x a = anchor_x rhs \<and> anchor_y a = anchor_y rhs \<and>
      (format a \<noteq> 2 \<or> contourpoint a = contourpoint rhs))"

text \<open>The member initialisers of the struct: every field zero, the name empty.\<close>

definition AnchorMarkInfo_init :: AnchorMarkInfo where
  "AnchorMarkInfo_init =
     \<lparr>format = 0, markClassIndex = 0, componentIndex = 0,
      anchor_x = 0, anchor_y = 0, contourpoint = 0, anchorMarkClassName = []\<rparr>"

subsection \<open>Glyph records and classes\<close>

record MetricsInfo =
  metrics :: "16 word list"

record GlyphRec =
  gid :: GID
  markClassAnchorInfo :: AnchorMarkInfo

text \<open>\<^verbatim>\<open>explicit GlyphRec(GID g) : gid(g) {}\<close>\<close>

definition GlyphRec_of :: "GID \<Rightarrow> GlyphRec" where
  "GlyphRec_of g = \<lparr>gid = g, markClassAnchorInfo = AnchorMarkInfo_init\<rparr>"

text \<open>\<^verbatim>\<open>bool operator<(const GlyphRec &gr) const { return gid < gr.gid; }\<close>\<close>

definition GlyphRec_less :: "GlyphRec \<Rightarrow> GlyphRec \<Rightarrow> bool" where
  "GlyphRec_less a gr = (gid a < gid gr)"

text \<open>\<^verbatim>\<open>bool operator==(GID g) const { return g == gid; }\<close>\<close>

definition GlyphRec_eq_GID :: "GlyphRec \<Rightarrow> GID \<Rightarrow> bool" where
  "GlyphRec_eq_GID a g = (g = gid a)"

record ClassRec =
  glyphs :: "GlyphRec list"
  lookupLabels :: "int list"
  metricsInfo :: MetricsInfo
  markClassName :: string
  marked :: bool
  gclass :: bool
  backtrack :: bool
  input :: bool
  lookahead :: bool
  basenode :: bool
  marknode :: bool
  used_mark_class :: bool

definition ClassRec_is_glyph :: "ClassRec \<Rightarrow> bool" where
  "ClassRec_is_glyph c = (length (glyphs c) = 1 \<and> \<not> gclass c)"

definition ClassRec_is_multi_class :: "ClassRec \<Rightarrow> bool" where
  "ClassRec_is_multi_class c = (length (glyphs c) > 1)"

definition ClassRec_is_class :: "ClassRec \<Rightarrow> bool" where
  "ClassRec_is_class c = (ClassRec_is_multi_class c \<or> gclass c)"

text \<open>\<^verbatim>\<open>void addGlyph(GID gid) { glyphs.emplace_back(gid); }\<close>\<close>

definition ClassRec_addGlyph :: "ClassRec \<Rightarrow> GID \<Rightarrow> ClassRec" where
  "ClassRec_addGlyph c g = c\<lparr>glyphs := glyphs c @ [GlyphRec_of g]\<rparr>"

text \<open>
  \<^verbatim>\<open>void concat(const ClassRec &other)\<close> inserts \<^verbatim>\<open>other.glyphs\<close> at the end of
  \<^verbatim>\<open>glyphs\<close>. On values:
\<close>

definition ClassRec_concat :: "ClassRec \<Rightarrow> ClassRec \<Rightarrow> ClassRec" where
  "ClassRec_concat c other = c\<lparr>glyphs := glyphs c @ glyphs other\<rparr>"

text \<open>
  The call \<^verbatim>\<open>c.concat(other)\<close> works on two objects: \<^verbatim>\<open>this\<close> is written, \<^verbatim>\<open>other\<close> is
  read through a const reference. The objects live in a store of class records indexed
  by address. \<^verbatim>\<open>std::vector::insert(pos, first, last)\<close> requires that \<^verbatim>\<open>first\<close> and
  \<^verbatim>\<open>last\<close> are not iterators into the vector itself, so a call with \<^verbatim>\<open>other\<close> referring
  to \<^verbatim>\<open>*this\<close> has no defined result; so has a call on an address that holds no object.
  Both are \<open>None\<close>.
\<close>

type_synonym ClassRec_store = "nat \<rightharpoonup> ClassRec"

definition concat_call :: "ClassRec_store \<Rightarrow> nat \<Rightarrow> nat \<Rightarrow> ClassRec_store option" where
  "concat_call h this other =
     (case h this of
        None \<Rightarrow> None
      | Some c \<Rightarrow>
          (case h other of
             None \<Rightarrow> None
           | Some oc \<Rightarrow>
               if this = other then None
               else Some (h(this \<mapsto> ClassRec_concat c oc))))"

subsection \<open>Tag sets\<close>

text \<open>
  \<^verbatim>\<open>typedef std::unordered_set<Tag> TagArray\<close>; \<^verbatim>\<open>FeatCtx::addTag\<close> takes the set by
  reference and returns a flag, so the model returns the flag together with the set.
  \<^verbatim>\<open>a.emplace(t)\<close> is \<open>insert\<close>.
\<close>

type_synonym TagArray = "Tag set"

definition addTag :: "TagArray \<Rightarrow> Tag \<Rightarrow> bool \<times> TagArray" where
  "addTag a t = (if t \<notin> a then (False, a) else (True, insert t a))"

section \<open>Failures and assertions\<close>

text \<open>
  A run can stop in two ways that are not a return value: a failed \<^verbatim>\<open>assert\<close>, which
  aborts the program, and an access to a vector outside its bounds. Both are values of
  the result type, \<open>Inl\<close> of a \<open>failure\<close>.

  \<^verbatim>\<open>assert\<close> comes from \<^verbatim>\<open><cassert>\<close>: it checks its condition unless the translation unit
  is compiled with \<^verbatim>\<open>NDEBUG\<close> defined, in which case it expands to nothing. Which of the
  two holds is a property of the build, so every function with an assertion takes the
  flag \<open>ndebug\<close>.
\<close>

datatype failure = AssertionFailed | OutOfBounds

definition assert_ok :: "bool \<Rightarrow> bool \<Rightarrow> bool" where
  "assert_ok ndebug cond = (ndebug \<or> cond)"

definition vector_at :: "'a list \<Rightarrow> nat \<Rightarrow> failure + 'a" where
  "vector_at xs i = (if i < length xs then Inr (xs ! i) else Inl OutOfBounds)"

section \<open>The sort of the C++ library\<close>

text \<open>
  \<^verbatim>\<open>ClassRec::sort()\<close> calls \<^verbatim>\<open>std::sort(glyphs.begin(), glyphs.end())\<close>. The function is not
  part of FeatCtx.h: it comes with \<^verbatim>\<open>#include <algorithm>\<close>, and what a call does to
  elements that compare equal is decided by the library, not by the C++ standard. The
  model is the implementation of the GNU C++ library (libstdc++, \<^verbatim>\<open>bits/stl_algo.h\<close> and
  \<^verbatim>\<open>bits/stl_heap.h\<close>): an introsort, that is, a quicksort with a median-of-three pivot down
  to ranges of 16 elements (\<^verbatim>\<open>_S_threshold\<close>) that falls back to a heapsort when the
  recursion depth passes \<open>2 * lg n\<close>, followed by one insertion sort over the whole range.

  A range is the vector as a list together with positions in it; \<open>fi\<close> and \<open>la\<close> stand
  for the iterators \<^verbatim>\<open>__first\<close> and \<^verbatim>\<open>__last\<close>. The comparison \<open>lt\<close> is \<^verbatim>\<open>operator<\<close> of the
  elements. The library checks no bounds: a function that would read or write outside
  the vector returns \<open>None\<close>.
\<close>

text \<open>\<^verbatim>\<open>std::iter_swap(a, b)\<close>.\<close>

definition iter_swap :: "'a list \<Rightarrow> nat \<Rightarrow> nat \<Rightarrow> 'a list option" where
  "iter_swap xs i j =
     (if i < length xs \<and> j < length xs then Some (xs[i := xs ! j, j := xs ! i]) else None)"

subsection \<open>Insertion sort\<close>

text \<open>
  \<^verbatim>\<open>__unguarded_linear_insert(__last, __comp)\<close> takes the value at \<^verbatim>\<open>__last\<close> and shifts the
  elements before it that are greater one place up: \<^verbatim>\<open>while (__comp(__val, __next))
  { *__last = *__next; __last = __next; --__next; }  *__last = __val;\<close>. Nothing stops the
  loop at the start of the vector; the last argument of the loop is the position of
  \<^verbatim>\<open>__last\<close>.
\<close>

fun unguarded_linear_insert_loop ::
  "('a \<Rightarrow> 'a \<Rightarrow> bool) \<Rightarrow> 'a list \<Rightarrow> 'a \<Rightarrow> nat \<Rightarrow> 'a list option" where
  "unguarded_linear_insert_loop lt xs val 0 = None"
| "unguarded_linear_insert_loop lt xs val (Suc n) =
     (if lt val (xs ! n) then unguarded_linear_insert_loop lt (xs[Suc n := xs ! n]) val n
      else Some (xs[Suc n := val]))"

definition unguarded_linear_insert ::
  "('a \<Rightarrow> 'a \<Rightarrow> bool) \<Rightarrow> 'a list \<Rightarrow> nat \<Rightarrow> 'a list option" where
  "unguarded_linear_insert lt xs la =
     (if la < length xs then unguarded_linear_insert_loop lt xs (xs ! la) la else None)"

text \<open>
  \<^verbatim>\<open>__insertion_sort(__first, __last, __comp)\<close>: for every \<^verbatim>\<open>__i\<close> from \<^verbatim>\<open>__first + 1\<close> to
  \<^verbatim>\<open>__last\<close>, an element less than the one at \<^verbatim>\<open>__first\<close> goes to the front
  (\<^verbatim>\<open>__val = *__i; move_backward(__first, __i, __i + 1); *__first = __val\<close>, which is
  \<open>move_backward_insert\<close>), any other element is placed by \<^verbatim>\<open>__unguarded_linear_insert\<close>.
\<close>

definition move_backward_insert :: "'a list \<Rightarrow> nat \<Rightarrow> nat \<Rightarrow> 'a list" where
  "move_backward_insert xs fi i =
     take fi xs @ xs ! i # take (i - fi) (drop fi xs) @ drop (Suc i) xs"

function insertion_sort_loop ::
  "('a \<Rightarrow> 'a \<Rightarrow> bool) \<Rightarrow> 'a list \<Rightarrow> nat \<Rightarrow> nat \<Rightarrow> nat \<Rightarrow> 'a list option" where
  "insertion_sort_loop lt xs fi i la =
     (if i = la then Some xs
      else if la < i \<or> length xs \<le> i \<or> i < fi then None
      else if lt (xs ! i) (xs ! fi)
        then insertion_sort_loop lt (move_backward_insert xs fi i) fi (Suc i) la
      else (case unguarded_linear_insert lt xs i of
              None \<Rightarrow> None
            | Some ys \<Rightarrow> insertion_sort_loop lt ys fi (Suc i) la))"
  by pat_completeness auto
termination
  by (relation "measure (\<lambda>(lt, xs, fi, i, la). la - i)") auto

declare insertion_sort_loop.simps [simp del]

definition insertion_sort ::
  "('a \<Rightarrow> 'a \<Rightarrow> bool) \<Rightarrow> 'a list \<Rightarrow> nat \<Rightarrow> nat \<Rightarrow> 'a list option" where
  "insertion_sort lt xs fi la =
     (if fi = la then Some xs else insertion_sort_loop lt xs fi (fi + 1) la)"

text \<open>
  \<^verbatim>\<open>__unguarded_insertion_sort(__first, __last, __comp)\<close> is
  \<^verbatim>\<open>for (__i = __first; __i != __last; ++__i) __unguarded_linear_insert(__i, __comp);\<close>
\<close>

function unguarded_insertion_sort ::
  "('a \<Rightarrow> 'a \<Rightarrow> bool) \<Rightarrow> 'a list \<Rightarrow> nat \<Rightarrow> nat \<Rightarrow> 'a list option" where
  "unguarded_insertion_sort lt xs i la =
     (if i = la then Some xs
      else if la < i then None
      else (case unguarded_linear_insert lt xs i of
              None \<Rightarrow> None
            | Some ys \<Rightarrow> unguarded_insertion_sort lt ys (Suc i) la))"
  by pat_completeness auto
termination
  by (relation "measure (\<lambda>(lt, xs, i, la). la - i)") auto

declare unguarded_insertion_sort.simps [simp del]

text \<open>\<^verbatim>\<open>enum { _S_threshold = 16 };\<close>\<close>

definition S_threshold :: nat where
  "S_threshold = 16"

text \<open>
  \<^verbatim>\<open>__final_insertion_sort\<close>: a range of more than 16 elements gets the guarded insertion
  sort on its first 16 elements and the unguarded one on the rest.
\<close>

definition final_insertion_sort ::
  "('a \<Rightarrow> 'a \<Rightarrow> bool) \<Rightarrow> 'a list \<Rightarrow> nat \<Rightarrow> nat \<Rightarrow> 'a list option" where
  "final_insertion_sort lt xs fi la =
     (if la - fi > S_threshold then
        (case insertion_sort lt xs fi (fi + S_threshold) of
           None \<Rightarrow> None
         | Some ys \<Rightarrow> unguarded_insertion_sort lt ys (fi + S_threshold) la)
      else insertion_sort lt xs fi la)"

subsection \<open>Partition\<close>

text \<open>
  \<^verbatim>\<open>__move_median_to_first(__result, __a, __b, __c, __comp)\<close> swaps the median of the
  elements at \<^verbatim>\<open>__a\<close>, \<^verbatim>\<open>__b\<close> and \<^verbatim>\<open>__c\<close> with the one at \<^verbatim>\<open>__result\<close>.
\<close>

definition move_median_to_first ::
  "('a \<Rightarrow> 'a \<Rightarrow> bool) \<Rightarrow> 'a list \<Rightarrow> nat \<Rightarrow> nat \<Rightarrow> nat \<Rightarrow> nat \<Rightarrow> 'a list option" where
  "move_median_to_first lt xs result a b c =
     (if length xs \<le> a \<or> length xs \<le> b \<or> length xs \<le> c then None
      else if lt (xs ! a) (xs ! b) then
        (if lt (xs ! b) (xs ! c) then iter_swap xs result b
         else if lt (xs ! a) (xs ! c) then iter_swap xs result c
         else iter_swap xs result a)
      else if lt (xs ! a) (xs ! c) then iter_swap xs result a
      else if lt (xs ! b) (xs ! c) then iter_swap xs result c
      else iter_swap xs result b)"

text \<open>
  \<^verbatim>\<open>__unguarded_partition(__first, __last, __pivot, __comp)\<close> is the loop
  \<^verbatim>\<open>while (true) { while (__comp(__first, __pivot)) ++__first;  --__last;
  while (__comp(__pivot, __last)) --__last;  if (!(__first < __last)) return __first;
  iter_swap(__first, __last);  ++__first; }\<close>. \<open>scan_up\<close> and \<open>scan_down\<close> are the two
  inner loops; neither tests a bound.
\<close>

function scan_up :: "('a \<Rightarrow> 'a \<Rightarrow> bool) \<Rightarrow> 'a list \<Rightarrow> nat \<Rightarrow> nat \<Rightarrow> nat option" where
  "scan_up lt xs pivot fi =
     (if length xs \<le> fi \<or> length xs \<le> pivot then None
      else if lt (xs ! fi) (xs ! pivot) then scan_up lt xs pivot (Suc fi)
      else Some fi)"
  by pat_completeness auto
termination
  by (relation "measure (\<lambda>(lt, xs, pivot, fi). length xs - fi)") auto

declare scan_up.simps [simp del]

fun scan_down :: "('a \<Rightarrow> 'a \<Rightarrow> bool) \<Rightarrow> 'a list \<Rightarrow> nat \<Rightarrow> nat \<Rightarrow> nat option" where
  "scan_down lt xs pivot 0 =
     (if length xs \<le> 0 \<or> length xs \<le> pivot then None
      else if lt (xs ! pivot) (xs ! 0) then None
      else Some 0)"
| "scan_down lt xs pivot (Suc n) =
     (if length xs \<le> Suc n \<or> length xs \<le> pivot then None
      else if lt (xs ! pivot) (xs ! Suc n) then scan_down lt xs pivot n
      else Some (Suc n))"

function unguarded_partition ::
  "('a \<Rightarrow> 'a \<Rightarrow> bool) \<Rightarrow> 'a list \<Rightarrow> nat \<Rightarrow> nat \<Rightarrow> nat \<Rightarrow> ('a list \<times> nat) option" where
  "unguarded_partition lt xs fi la pivot =
     (case scan_up lt xs pivot fi of
        None \<Rightarrow> None
      | Some i \<Rightarrow>
          (if la = 0 then None
           else (case scan_down lt xs pivot (la - 1) of
                   None \<Rightarrow> None
                 | Some j \<Rightarrow>
                     if \<not> i < j then Some (xs, i)
                     else (case iter_swap xs i j of
                             None \<Rightarrow> None
                           | Some ys \<Rightarrow> unguarded_partition lt ys (Suc i) j pivot))))"
  by pat_completeness auto
termination
proof (relation "measure (\<lambda>(lt, xs, fi, la, pivot). la)", goal_cases)
  case 1
  then show ?case by simp
next
  case (2 lt xs fi la pivot i j ys)
  have "scan_down lt xs pivot n = Some k \<Longrightarrow> k \<le> n" for n k
    by (induction n) (auto split: if_splits)
  from this [of "la - 1" j] 2 show ?case by simp
qed

declare unguarded_partition.simps [simp del]

text \<open>
  \<^verbatim>\<open>__unguarded_partition_pivot(__first, __last, __comp)\<close>:
  \<^verbatim>\<open>__mid = __first + (__last - __first) / 2;
  __move_median_to_first(__first, __first + 1, __mid, __last - 1, __comp);
  return __unguarded_partition(__first + 1, __last, __first, __comp);\<close>
\<close>

definition unguarded_partition_pivot ::
  "('a \<Rightarrow> 'a \<Rightarrow> bool) \<Rightarrow> 'a list \<Rightarrow> nat \<Rightarrow> nat \<Rightarrow> ('a list \<times> nat) option" where
  "unguarded_partition_pivot lt xs fi la =
     (let mid = fi + (la - fi) div 2 in
      if la = 0 then None
      else (case move_median_to_first lt xs fi (fi + 1) mid (la - 1) of
              None \<Rightarrow> None
            | Some ys \<Rightarrow> unguarded_partition lt ys (fi + 1) la fi))"

subsection \<open>Heapsort\<close>

text \<open>
  The heap functions of \<^verbatim>\<open>bits/stl_heap.h\<close> address the range by offsets from
  \<^verbatim>\<open>__first\<close>; the list \<open>h\<close> is the range from \<^verbatim>\<open>__first\<close> on.
  \<^verbatim>\<open>__push_heap(__first, __holeIndex, __topIndex, __value, __comp)\<close> moves the hole up while
  its parent \<^verbatim>\<open>(__holeIndex - 1) / 2\<close> is less than the value.
\<close>

function push_heap ::
  "('a \<Rightarrow> 'a \<Rightarrow> bool) \<Rightarrow> 'a list \<Rightarrow> nat \<Rightarrow> nat \<Rightarrow> 'a \<Rightarrow> 'a list option" where
  "push_heap lt h holeIndex topIndex val =
     (if length h \<le> holeIndex then None
      else if holeIndex > topIndex \<and> lt (h ! ((holeIndex - 1) div 2)) val
        then push_heap lt (h[holeIndex := h ! ((holeIndex - 1) div 2)])
               ((holeIndex - 1) div 2) topIndex val
      else Some (h[holeIndex := val]))"
  by pat_completeness auto
termination
  by (relation "measure (\<lambda>(lt, h, holeIndex, topIndex, val). holeIndex)") auto

declare push_heap.simps [simp del]

text \<open>
  \<^verbatim>\<open>__adjust_heap(__first, __holeIndex, __len, __value, __comp)\<close> moves the hole down to a
  leaf, always towards the greater child (\<^verbatim>\<open>while (__secondChild < (__len - 1) / 2)\<close>),
  treats the last inner node of a heap of even length, which has one child only
  (\<^verbatim>\<open>(__len & 1) == 0 && __secondChild == (__len - 2) / 2\<close>), and pushes the value up again
  from there. In the loop the hole and \<^verbatim>\<open>__secondChild\<close> are the same position. The
  lengths are signed: for \<^verbatim>\<open>__len\<close> 0 the quotient \<^verbatim>\<open>(__len - 2) / 2\<close> is negative and equals
  no index, which is the test \<open>2 \<le> len\<close>.
\<close>

function adjust_heap_loop ::
  "('a \<Rightarrow> 'a \<Rightarrow> bool) \<Rightarrow> 'a list \<Rightarrow> nat \<Rightarrow> nat \<Rightarrow> ('a list \<times> nat) option" where
  "adjust_heap_loop lt h secondChild len =
     (if secondChild < (len - 1) div 2 then
        (if length h \<le> 2 * (secondChild + 1) then None
         else
           (let c = (if lt (h ! (2 * (secondChild + 1))) (h ! (2 * (secondChild + 1) - 1))
                     then 2 * (secondChild + 1) - 1 else 2 * (secondChild + 1))
            in adjust_heap_loop lt (h[secondChild := h ! c]) c len))
      else Some (h, secondChild))"
  by pat_completeness auto
termination
  by (relation "measure (\<lambda>(lt, h, secondChild, len). len - secondChild)") auto

declare adjust_heap_loop.simps [simp del]

definition adjust_heap ::
  "('a \<Rightarrow> 'a \<Rightarrow> bool) \<Rightarrow> 'a list \<Rightarrow> nat \<Rightarrow> nat \<Rightarrow> 'a \<Rightarrow> 'a list option" where
  "adjust_heap lt h holeIndex len val =
     (case adjust_heap_loop lt h holeIndex len of
        None \<Rightarrow> None
      | Some (h1, secondChild) \<Rightarrow>
          if even len \<and> 2 \<le> len \<and> secondChild = (len - 2) div 2 then
            (if length h1 \<le> 2 * (secondChild + 1) - 1 then None
             else push_heap lt (h1[secondChild := h1 ! (2 * (secondChild + 1) - 1)])
                    (2 * (secondChild + 1) - 1) holeIndex val)
          else push_heap lt h1 secondChild holeIndex val)"

text \<open>
  \<^verbatim>\<open>__make_heap(__first, __last, __comp)\<close>: nothing for fewer than two elements, else
  \<^verbatim>\<open>__adjust_heap\<close> at every parent from \<^verbatim>\<open>(__len - 2) / 2\<close> down to 0.
\<close>

function make_heap_loop ::
  "('a \<Rightarrow> 'a \<Rightarrow> bool) \<Rightarrow> 'a list \<Rightarrow> nat \<Rightarrow> nat \<Rightarrow> 'a list option" where
  "make_heap_loop lt h parent len =
     (if length h \<le> parent then None
      else (case adjust_heap lt h parent len (h ! parent) of
              None \<Rightarrow> None
            | Some h' \<Rightarrow> if parent = 0 then Some h' else make_heap_loop lt h' (parent - 1) len))"
  by pat_completeness auto
termination
  by (relation "measure (\<lambda>(lt, h, parent, len). parent)") auto

declare make_heap_loop.simps [simp del]

definition make_heap :: "('a \<Rightarrow> 'a \<Rightarrow> bool) \<Rightarrow> 'a list \<Rightarrow> nat \<Rightarrow> 'a list option" where
  "make_heap lt h len =
     (if len < 2 then Some h else make_heap_loop lt h ((len - 2) div 2) len)"

text \<open>
  \<^verbatim>\<open>__pop_heap(__first, __last, __result, __comp)\<close>:
  \<^verbatim>\<open>__value = *__result; *__result = *__first;
  __adjust_heap(__first, 0, __last - __first, __value, __comp);\<close> Here \<open>len\<close> is
  \<^verbatim>\<open>__last - __first\<close>.
\<close>

definition pop_heap :: "('a \<Rightarrow> 'a \<Rightarrow> bool) \<Rightarrow> 'a list \<Rightarrow> nat \<Rightarrow> nat \<Rightarrow> 'a list option" where
  "pop_heap lt h len result =
     (if length h \<le> result \<or> h = [] then None
      else adjust_heap lt (h[result := h ! 0]) 0 len (h ! result))"

text \<open>
  \<^verbatim>\<open>__sort_heap\<close>: \<^verbatim>\<open>while (__last - __first > 1) { --__last;
  __pop_heap(__first, __last, __last, __comp); }\<close>
\<close>

function sort_heap :: "('a \<Rightarrow> 'a \<Rightarrow> bool) \<Rightarrow> 'a list \<Rightarrow> nat \<Rightarrow> 'a list option" where
  "sort_heap lt h la =
     (if la > 1 then
        (case pop_heap lt h (la - 1) (la - 1) of
           None \<Rightarrow> None
         | Some h' \<Rightarrow> sort_heap lt h' (la - 1))
      else Some h)"
  by pat_completeness auto
termination
  by (relation "measure (\<lambda>(lt, h, la). la)") auto

declare sort_heap.simps [simp del]

text \<open>
  \<^verbatim>\<open>__heap_select(__first, __middle, __last, __comp)\<close>: \<^verbatim>\<open>__make_heap(__first, __middle,
  __comp); for (__i = __middle; __i < __last; ++__i) if (__comp(__i, __first))
  __pop_heap(__first, __middle, __i, __comp);\<close>
\<close>

function heap_select_loop ::
  "('a \<Rightarrow> 'a \<Rightarrow> bool) \<Rightarrow> 'a list \<Rightarrow> nat \<Rightarrow> nat \<Rightarrow> nat \<Rightarrow> 'a list option" where
  "heap_select_loop lt h middle i la =
     (if i < la then
        (if length h \<le> i then None
         else if lt (h ! i) (h ! 0) then
           (case pop_heap lt h middle i of
              None \<Rightarrow> None
            | Some h' \<Rightarrow> heap_select_loop lt h' middle (Suc i) la)
         else heap_select_loop lt h middle (Suc i) la)
      else Some h)"
  by pat_completeness auto
termination
  by (relation "measure (\<lambda>(lt, h, middle, i, la). la - i)") auto

declare heap_select_loop.simps [simp del]

definition heap_select ::
  "('a \<Rightarrow> 'a \<Rightarrow> bool) \<Rightarrow> 'a list \<Rightarrow> nat \<Rightarrow> nat \<Rightarrow> 'a list option" where
  "heap_select lt h middle la =
     (case make_heap lt h middle of
        None \<Rightarrow> None
      | Some h' \<Rightarrow> heap_select_loop lt h' middle middle la)"

text \<open>
  \<^verbatim>\<open>__partial_sort(__first, __middle, __last, __comp)\<close> is \<^verbatim>\<open>__heap_select\<close> followed by
  \<^verbatim>\<open>__sort_heap(__first, __middle, __comp)\<close>. The heap functions see the elements from
  \<open>fi\<close> up to \<open>la\<close>; the elements before and after stay where they are.
\<close>

definition partial_sort ::
  "('a \<Rightarrow> 'a \<Rightarrow> bool) \<Rightarrow> 'a list \<Rightarrow> nat \<Rightarrow> nat \<Rightarrow> nat \<Rightarrow> 'a list option" where
  "partial_sort lt xs fi middle la =
     (if \<not> (fi \<le> middle \<and> middle \<le> la \<and> la \<le> length xs) then None
      else (case heap_select lt (take (la - fi) (drop fi xs))
                   (middle - fi) (la - fi) of
              None \<Rightarrow> None
            | Some h1 \<Rightarrow>
                (case sort_heap lt h1 (middle - fi) of
                   None \<Rightarrow> None
                 | Some h2 \<Rightarrow> Some (take fi xs @ h2 @ drop la xs))))"

subsection \<open>Introsort\<close>

text \<open>
  \<^verbatim>\<open>__introsort_loop(__first, __last, __depth_limit, __comp)\<close>:
  \<^verbatim>\<open>while (__last - __first > _S_threshold) { if (__depth_limit == 0) {
  __partial_sort(__first, __last, __last, __comp); return; }  --__depth_limit;
  __cut = __unguarded_partition_pivot(__first, __last, __comp);
  __introsort_loop(__cut, __last, __depth_limit, __comp);  __last = __cut; }\<close>
  The next round of the loop is the second recursive call.
\<close>

function introsort_loop ::
  "('a \<Rightarrow> 'a \<Rightarrow> bool) \<Rightarrow> 'a list \<Rightarrow> nat \<Rightarrow> nat \<Rightarrow> nat \<Rightarrow> 'a list option" where
  "introsort_loop lt xs fi la depth_limit =
     (if la - fi > S_threshold then
        (if depth_limit = 0 then partial_sort lt xs fi la la
         else (case unguarded_partition_pivot lt xs fi la of
                 None \<Rightarrow> None
               | Some (ys, cutp) \<Rightarrow>
                   (case introsort_loop lt ys cutp la (depth_limit - 1) of
                      None \<Rightarrow> None
                    | Some zs \<Rightarrow> introsort_loop lt zs fi cutp (depth_limit - 1))))
      else Some xs)"
  by pat_completeness auto
termination
  by (relation "measure (\<lambda>(lt, xs, fi, la, depth_limit). depth_limit)") auto

declare introsort_loop.simps [simp del]

text \<open>\<^verbatim>\<open>std::__lg(n)\<close>, the position of the highest bit set in \<open>n\<close>.\<close>

fun lg :: "nat \<Rightarrow> nat" where
  "lg n = (if n < 2 then 0 else Suc (lg (n div 2)))"

declare lg.simps [simp del]

text \<open>
  \<^verbatim>\<open>std::sort(__first, __last)\<close> on the whole vector: \<^verbatim>\<open>if (__first != __last)
  { __introsort_loop(__first, __last, __lg(__last - __first) * 2, __comp);
  __final_insertion_sort(__first, __last, __comp); }\<close>
\<close>

definition std_sort :: "('a \<Rightarrow> 'a \<Rightarrow> bool) \<Rightarrow> 'a list \<Rightarrow> 'a list option" where
  "std_sort lt xs =
     (if xs = [] then Some xs
      else (case introsort_loop lt xs 0 (length xs) (lg (length xs) * 2) of
              None \<Rightarrow> None
            | Some ys \<Rightarrow> final_insertion_sort lt ys 0 (length xs)))"

section \<open>Operations on the glyphs of a class\<close>

text \<open>
  \<^verbatim>\<open>void sort() { std::sort(glyphs.begin(), glyphs.end()); }\<close>: the library compares the
  elements with \<^verbatim>\<open>GlyphRec::operator<\<close>. A run of the library's sort that left the vector
  would be the failure \<open>OutOfBounds\<close>.
\<close>

definition ClassRec_sort :: "ClassRec \<Rightarrow> failure + ClassRec" where
  "ClassRec_sort c =
     (case std_sort GlyphRec_less (glyphs c) of
        None \<Rightarrow> Inl OutOfBounds
      | Some ys \<Rightarrow> Inr (c\<lparr>glyphs := ys\<rparr>))"

text \<open>
  \<^verbatim>\<open>glyphInClass(GID gid)\<close> is \<^verbatim>\<open>std::find(...) != glyphs.end()\<close>, with the elements
  compared to \<^verbatim>\<open>gid\<close> by \<^verbatim>\<open>GlyphRec::operator==(GID)\<close>. \<^verbatim>\<open>classSize()\<close> returns the size
  as \<^verbatim>\<open>int\<close>.
\<close>

definition ClassRec_glyphInClass :: "ClassRec \<Rightarrow> GID \<Rightarrow> bool" where
  "ClassRec_glyphInClass c g = list_ex (\<lambda>r. GlyphRec_eq_GID r g) (glyphs c)"

definition ClassRec_classSize :: "ClassRec \<Rightarrow> int" where
  "ClassRec_classSize c = int (length (glyphs c))"

section \<open>Patterns\<close>

text \<open>\<^verbatim>\<open>struct GPat\<close>; its flag \<^verbatim>\<open>enumerate\<close> is called \<open>enumerate_flag\<close> here.\<close>

record GPat =
  classes :: "ClassRec list"
  has_marked :: bool
  ignore_clause :: bool
  lookup_node :: bool
  enumerate_flag :: bool

text \<open>
  The four accessors by position. Each starts with \<^verbatim>\<open>assert(idx < classes.size())\<close> and
  then tests \<^verbatim>\<open>idx >= classes.size()\<close> itself. \<^verbatim>\<open>idx\<close> is \<^verbatim>\<open>uint16_t\<close>.
\<close>

definition GPat_glyphInClass :: "bool \<Rightarrow> GPat \<Rightarrow> GID \<Rightarrow> 16 word \<Rightarrow> failure + bool" where
  "GPat_glyphInClass ndebug p g idx =
     (if \<not> assert_ok ndebug (unat idx < length (classes p)) then Inl AssertionFailed
      else if unat idx \<ge> length (classes p) then Inr False
      else (case vector_at (classes p) (unat idx) of
              Inl e \<Rightarrow> Inl e
            | Inr c \<Rightarrow> Inr (ClassRec_glyphInClass c g)))"

definition GPat_classSize :: "bool \<Rightarrow> GPat \<Rightarrow> 16 word \<Rightarrow> failure + int" where
  "GPat_classSize ndebug p idx =
     (if \<not> assert_ok ndebug (unat idx < length (classes p)) then Inl AssertionFailed
      else if unat idx \<ge> length (classes p) then Inr 0
      else (case vector_at (classes p) (unat idx) of
              Inl e \<Rightarrow> Inl e
            | Inr c \<Rightarrow> Inr (ClassRec_classSize c)))"

text \<open>
  \<^verbatim>\<open>sortClass\<close> returns nothing and changes the pattern; the result is either a failure
  or the pattern after the call. In range, the class at \<^verbatim>\<open>idx\<close> is sorted in place
  (\<^verbatim>\<open>classes[idx].sort()\<close>) and nothing else changes.
\<close>

definition GPat_sortClass :: "bool \<Rightarrow> GPat \<Rightarrow> 16 word \<Rightarrow> failure + GPat" where
  "GPat_sortClass ndebug p idx =
     (if \<not> assert_ok ndebug (unat idx < length (classes p)) then Inl AssertionFailed
      else if unat idx \<ge> length (classes p) then Inr p
      else (case vector_at (classes p) (unat idx) of
              Inl e \<Rightarrow> Inl e
            | Inr c \<Rightarrow>
                (case ClassRec_sort c of
                   Inl e \<Rightarrow> Inl e
                 | Inr c' \<Rightarrow> Inr (p\<lparr>classes := (classes p)[unat idx := c']\<rparr>))))"

text \<open>
  \<^verbatim>\<open>makeClassUnique\<close> hands the class at \<^verbatim>\<open>idx\<close> to \<^verbatim>\<open>ClassRec::makeUnique(g, report)\<close>,
  which FeatCtx.h declares and does not define. It is the parameter \<open>makeUnique\<close>: from
  the context \<^verbatim>\<open>g\<close> (of any type \<open>'h\<close>), the class and the flag to the context and the
  class afterwards.
\<close>

definition GPat_makeClassUnique ::
  "('h \<Rightarrow> ClassRec \<Rightarrow> bool \<Rightarrow> 'h \<times> ClassRec) \<Rightarrow> bool \<Rightarrow> 'h \<Rightarrow> GPat \<Rightarrow> 16 word \<Rightarrow> bool
     \<Rightarrow> failure + ('h \<times> GPat)" where
  "GPat_makeClassUnique makeUnique ndebug g p idx report =
     (if \<not> assert_ok ndebug (unat idx < length (classes p)) then Inl AssertionFailed
      else if unat idx \<ge> length (classes p) then Inr (g, p)
      else (case vector_at (classes p) (unat idx) of
              Inl e \<Rightarrow> Inl e
            | Inr c \<Rightarrow>
                (case makeUnique g c report of
                   (g', c') \<Rightarrow> Inr (g', p\<lparr>classes := (classes p)[unat idx := c']\<rparr>))))"

section \<open>The cross-product iterator\<close>

text \<open>
  \<^verbatim>\<open>class CrossProductIterator\<close> keeps pointers to the classes, one \<^verbatim>\<open>uint16_t\<close> index per
  class and the flag \<^verbatim>\<open>first\<close>. The iterator only reads the classes, so the model keeps
  them by value, in the field \<open>cpi_classes\<close>. The constructor sets every index to zero.
\<close>

record CrossProductIterator =
  cpi_classes :: "ClassRec list"
  indices :: "16 word list"
  first :: bool

definition CrossProductIterator_init :: "ClassRec list \<Rightarrow> CrossProductIterator" where
  "CrossProductIterator_init c =
     \<lparr>cpi_classes = c, indices = replicate (length c) 0, first = True\<rparr>"

text \<open>
  The first loop of \<^verbatim>\<open>next\<close>, from position \<open>i\<close> on:
  \<^verbatim>\<open>for (...; i < classes.size(); i++) { if (++indices[i] < classes[i]->glyphs.size()) break; indices[i] = 0; }\<close>.
  The increment is one of \<^verbatim>\<open>uint16_t\<close> and wraps around. The result is the indices and
  the value of \<open>i\<close> after the loop.
\<close>

function advance_indices ::
  "ClassRec list \<Rightarrow> 16 word list \<Rightarrow> nat \<Rightarrow> failure + (16 word list \<times> nat)" where
  "advance_indices cs ix i =
     (if i < length cs then
        (if i < length ix then
           (let ix' = ix[i := ix ! i + 1] in
            if unat (ix' ! i) < length (glyphs (cs ! i)) then Inr (ix', i)
            else advance_indices cs (ix'[i := 0]) (i + 1))
         else Inl OutOfBounds)
      else Inr (ix, i))"
  by pat_completeness auto
termination
  by (relation "measure (\<lambda>(cs, ix, i). length cs - i)") auto

text \<open>
  The second loop, from position \<open>i\<close> on:
  \<^verbatim>\<open>for (...; i < classes.size(); i++) gids.push_back(classes[i]->glyphs[indices[i]].gid);\<close>
\<close>

function collect_gids ::
  "ClassRec list \<Rightarrow> 16 word list \<Rightarrow> nat \<Rightarrow> GID list \<Rightarrow> failure + GID list" where
  "collect_gids cs ix i gids =
     (if i < length cs then
        (case vector_at ix i of
           Inl e \<Rightarrow> Inl e
         | Inr j \<Rightarrow>
             (case vector_at (glyphs (cs ! i)) (unat j) of
                Inl e \<Rightarrow> Inl e
              | Inr r \<Rightarrow> collect_gids cs ix (i + 1) (gids @ [gid r])))
      else Inr gids)"
  by pat_completeness auto
termination
  by (relation "measure (\<lambda>(cs, ix, i, gids). length cs - i)") auto

text \<open>
  Both loops are unfolded step by step in the proofs, never by the simplifier on its own.
\<close>

declare advance_indices.simps [simp del]

declare collect_gids.simps [simp del]

text \<open>
  The tail of \<^verbatim>\<open>next\<close> (\<^verbatim>\<open>first = false; gids.clear(); ...; return true;\<close>) with the indices
  as the first loop left them.
\<close>

definition yield_gids ::
  "CrossProductIterator \<Rightarrow> 16 word list
     \<Rightarrow> failure + (bool \<times> GID list \<times> CrossProductIterator)" where
  "yield_gids it ix =
     (case collect_gids (cpi_classes it) ix 0 [] of
        Inl e \<Rightarrow> Inl e
      | Inr gs \<Rightarrow> Inr (True, gs, it\<lparr>indices := ix, first := False\<rparr>))"

text \<open>
  \<^verbatim>\<open>bool next(std::vector<GID> &gids)\<close>: the result is the returned flag, the vector
  \<^verbatim>\<open>gids\<close> after the call and the iterator after the call.
\<close>

definition CrossProductIterator_next ::
  "bool \<Rightarrow> CrossProductIterator \<Rightarrow> GID list
     \<Rightarrow> failure + (bool \<times> GID list \<times> CrossProductIterator)" where
  "CrossProductIterator_next ndebug it gids =
     (if \<not> assert_ok ndebug (length (cpi_classes it) = length (indices it))
        then Inl AssertionFailed
      else if \<not> first it then
        (case advance_indices (cpi_classes it) (indices it) 0 of
           Inl e \<Rightarrow> Inl e
         | Inr (ix, i) \<Rightarrow>
             if i = length (cpi_classes it) then Inr (False, gids, it\<lparr>indices := ix\<rparr>)
             else yield_gids it ix)
      else yield_gids it (indices it))"

text \<open>
  \<open>n\<close> calls of \<^verbatim>\<open>next\<close> in a row on the same iterator and the same vector: the list of
  what each call returned and left in \<^verbatim>\<open>gids\<close>. A failure ends the run.
\<close>

fun cross_product_calls ::
  "bool \<Rightarrow> nat \<Rightarrow> CrossProductIterator \<Rightarrow> GID list \<Rightarrow> (failure + bool \<times> GID list) list" where
  "cross_product_calls ndebug 0 it gids = []"
| "cross_product_calls ndebug (Suc n) it gids =
     (case CrossProductIterator_next ndebug it gids of
        Inl e \<Rightarrow> [Inl e]
      | Inr (b, gids', it') \<Rightarrow> Inr (b, gids') # cross_product_calls ndebug n it' gids')"

section \<open>Mark classes in the feature context\<close>

text \<open>
  Modelled from the spec: the body of \<^verbatim>\<open>FeatCtx::addMark\<close>, the function behind the
  statement \<^verbatim>\<open>mark(name, pat)\<close>. FeatCtx.h declares
  \<^verbatim>\<open>void addMark(const std::string &name, GPat::ClassRec &cr)\<close> and has no definition of
  it. The class record has no guarded operation of its own (\<^verbatim>\<open>addGlyph\<close> and \<^verbatim>\<open>concat\<close>
  append what they are given); what FeatCtx.h says of the rule is the comment on the
  flag, "This marked class is used in a pos statement (can't add new glyphs)". The
  specification has the behaviour: the mark classes are kept by name and, unlike the
  other named objects, "accumulate"; "once used_mark_class is set (the class
  participated in a position rule), no further glyphs may be added"; "adding a glyph
  afterwards is an error"; and an error "sets had_error, continues".

  The model keeps the part of the context that the statement touches: the mark classes
  by name and the flag \<open>had_error\<close>. A name not seen before registers the class. A class
  that is registered with \<^verbatim>\<open>used_mark_class\<close> set is left as it is and the error is
  recorded. To any other registered class the glyph records of \<^verbatim>\<open>cr\<close> are appended, by
  \<^verbatim>\<open>ClassRec::concat\<close>.
\<close>

record FeatCtx_marks =
  markClasses :: "string \<rightharpoonup> ClassRec"
  had_error :: bool

definition FeatCtx_addMark :: "FeatCtx_marks \<Rightarrow> string \<Rightarrow> ClassRec \<Rightarrow> FeatCtx_marks" where
  "FeatCtx_addMark ctx name cr =
     (case markClasses ctx name of
        None \<Rightarrow> ctx\<lparr>markClasses := (markClasses ctx)(name \<mapsto> cr)\<rparr>
      | Some mc \<Rightarrow>
          if used_mark_class mc then ctx\<lparr>had_error := True\<rparr>
          else ctx\<lparr>markClasses := (markClasses ctx)(name \<mapsto> ClassRec_concat mc cr)\<rparr>)"

section \<open>Reference notions and sample values\<close>

text \<open>
  The sort key the specification gives for anchors: component index, mark class index,
  format, x, y and, for format 2 only, the contour point. Signed fields are read as
  signed numbers, unsigned ones as unsigned; tuples are ordered lexicographically.
\<close>

definition AnchorMarkInfo_key :: "AnchorMarkInfo \<Rightarrow> int \<times> int \<times> int \<times> int \<times> int \<times> int" where
  "AnchorMarkInfo_key a =
     (sint (componentIndex a), sint (markClassIndex a), uint (format a),
      sint (anchor_x a), sint (anchor_y a),
      if format a = 2 then uint (contourpoint a) else 0)"

definition anchor_top :: AnchorMarkInfo where
  "anchor_top =
     AnchorMarkInfo_init\<lparr>format := 1, anchor_x := 10, anchorMarkClassName := ''TOP''\<rparr>"

definition anchor_bottom :: AnchorMarkInfo where
  "anchor_bottom =
     AnchorMarkInfo_init\<lparr>format := 1, anchor_x := 10, contourpoint := 7,
       anchorMarkClassName := ''BOTTOM''\<rparr>"

definition anchor_neg :: AnchorMarkInfo where
  "anchor_neg = AnchorMarkInfo_init\<lparr>format := 1, componentIndex := - 1, anchor_x := 10\<rparr>"

text \<open>
  A class record with the given glyph records and every flag unset, as the default
  constructor leaves it, and one built from glyph ids alone.
\<close>

definition ClassRec_with :: "GlyphRec list \<Rightarrow> ClassRec" where
  "ClassRec_with gs =
     \<lparr>glyphs = gs, lookupLabels = [], metricsInfo = \<lparr>metrics = []\<rparr>,
      markClassName = [], marked = False, gclass = False, backtrack = False,
      input = False, lookahead = False, basenode = False, marknode = False,
      used_mark_class = False\<rparr>"

definition ClassRec_of_gids :: "GID list \<Rightarrow> ClassRec" where
  "ClassRec_of_gids gs = ClassRec_with (map GlyphRec_of gs)"


text \<open>
  Glyph records that share the GID 7 and differ in the x coordinate of their anchor, a
  class of seventeen of them in the order of their coordinates, and a context in which
  the used mark class is registered.
\<close>

definition glyph_7_at :: "nat \<Rightarrow> GlyphRec" where
  "glyph_7_at i =
     \<lparr>gid = 7,
      markClassAnchorInfo = AnchorMarkInfo_init\<lparr>format := 1, anchor_x := of_nat i\<rparr>\<rparr>"

definition class_17_of_gid_7 :: ClassRec where
  "class_17_of_gid_7 = ClassRec_with (map glyph_7_at [0..<17])"


definition pattern_one_class :: GPat where
  "pattern_one_class =
     \<lparr>classes = [ClassRec_of_gids [5, 3]], has_marked = False, ignore_clause = False,
      lookup_node = False, enumerate_flag = False\<rparr>"

definition classes_2x2 :: "ClassRec list" where
  "classes_2x2 = [ClassRec_of_gids [1, 2], ClassRec_of_gids [3, 4]]"

text \<open>
  The cross product of the classes, by index tuple. \<open>class_sizes\<close> are the sizes of the
  classes; \<open>index_tuple ns k\<close> is the \<open>k\<close>-th tuple of indices when the first position
  runs fastest (the digits of \<open>k\<close> in the mixed radix \<open>ns\<close>, least significant first);
  \<open>tuple_gids\<close> reads the glyph ids at an index tuple. \<open>tuple_value\<close> is the number
  whose digits a tuple holds, \<open>inc_tuple\<close> adds one to a tuple and tells at which
  position the carry stopped, and \<open>iterator_at cs k\<close> is the iterator that has just
  yielded the \<open>k\<close>-th tuple.
\<close>

definition class_sizes :: "ClassRec list \<Rightarrow> nat list" where
  "class_sizes cs = map (\<lambda>c. length (glyphs c)) cs"

fun index_tuple :: "nat list \<Rightarrow> nat \<Rightarrow> nat list" where
  "index_tuple [] k = []"
| "index_tuple (n # ns) k = (k mod n) # index_tuple ns (k div n)"

definition tuple_gids :: "ClassRec list \<Rightarrow> nat list \<Rightarrow> GID list" where
  "tuple_gids cs t = map (\<lambda>(c, j). gid (glyphs c ! j)) (zip cs t)"

fun tuple_value :: "nat list \<Rightarrow> nat list \<Rightarrow> nat" where
  "tuple_value (n # ns) (d # ds) = d + n * tuple_value ns ds"
| "tuple_value _ _ = 0"

fun inc_tuple :: "nat list \<Rightarrow> nat list \<Rightarrow> nat list \<times> nat" where
  "inc_tuple (n # ns) (d # ds) =
     (if d + 1 < n then ((d + 1) # ds, 0)
      else (case inc_tuple ns ds of (ds', j) \<Rightarrow> (0 # ds', Suc j)))"
| "inc_tuple _ _ = ([], 0)"

definition iterator_at :: "ClassRec list \<Rightarrow> nat \<Rightarrow> CrossProductIterator" where
  "iterator_at cs k =
     \<lparr>cpi_classes = cs, indices = map of_nat (index_tuple (class_sizes cs) k), first = False\<rparr>"

text \<open>
  Notions for the heap functions of the sort. \<open>heap_from f t h len\<close>: among the first
  \<open>len\<close> elements of \<open>h\<close>, every element whose parent is at position \<open>t\<close> or later has
  a key not above its parent's. \<open>in_subtree t k\<close>: position \<open>k\<close> lies in the subtree
  below \<open>t\<close>. \<open>hole_inv f t len g k\<close>: the state of \<^verbatim>\<open>__adjust_heap\<close> and \<^verbatim>\<open>__push_heap\<close>
  while the hole is at \<open>k\<close>: the heap order holds wherever the hole is not involved, and
  the children of the hole are not above its parent.
\<close>

definition heap_from :: "('a \<Rightarrow> 'k::linorder) \<Rightarrow> nat \<Rightarrow> 'a list \<Rightarrow> nat \<Rightarrow> bool" where
  "heap_from f t h len \<longleftrightarrow>
     (\<forall>i. 0 < i \<and> i < len \<and> t \<le> (i - 1) div 2 \<longrightarrow> f (h ! i) \<le> f (h ! ((i - 1) div 2)))"

function in_subtree :: "nat \<Rightarrow> nat \<Rightarrow> bool" where
  "in_subtree t k = (if k = t then True else if k < t then False else in_subtree t ((k - 1) div 2))"
  by pat_completeness auto
termination
  by (relation "measure (\<lambda>(t, k). k)") auto

declare in_subtree.simps [simp del]

definition hole_inv ::
  "('a \<Rightarrow> 'k::linorder) \<Rightarrow> nat \<Rightarrow> nat \<Rightarrow> 'a list \<Rightarrow> nat \<Rightarrow> bool" where
  "hole_inv f t len g k \<longleftrightarrow>
     len \<le> length g \<and> k < len \<and> in_subtree t k \<and>
     (\<forall>i. 0 < i \<and> i < len \<and> t \<le> (i - 1) div 2 \<and> i \<noteq> k \<and> (i - 1) div 2 \<noteq> k
          \<longrightarrow> f (g ! i) \<le> f (g ! ((i - 1) div 2))) \<and>
     (k \<noteq> t \<longrightarrow> (\<forall>c. 0 < c \<and> c < len \<and> (c - 1) div 2 = k
          \<longrightarrow> f (g ! c) \<le> f (g ! ((k - 1) div 2))))"

section \<open>Properties\<close>

subsection \<open>Class records\<close>

text \<open>
  C3: \<^verbatim>\<open>is_glyph()\<close> is true exactly when the glyph sequence has one element and the
  \<^verbatim>\<open>gclass\<close> flag is unset; \<^verbatim>\<open>is_class()\<close> is true exactly when the glyph sequence has
  more than one element or the \<^verbatim>\<open>gclass\<close> flag is set.
\<close>

theorem ClassRec_is_glyph_is_class_iff:
  "(ClassRec_is_glyph c \<longleftrightarrow> length (glyphs c) = 1 \<and> \<not> gclass c) \<and>
   (ClassRec_is_class c \<longleftrightarrow> length (glyphs c) > 1 \<or> gclass c)"
  by (simp add: ClassRec_is_glyph_def ClassRec_is_class_def ClassRec_is_multi_class_def)



text \<open>
  A class whose flag is not set accumulates: the glyph records of the statement are
  appended and no error is recorded by the statement.
\<close>

lemma FeatCtx_addMark_accumulates:
  assumes "markClasses ctx name = Some mc" and "\<not> used_mark_class mc"
  shows "map_option glyphs (markClasses (FeatCtx_addMark ctx name cr) name)
           = Some (glyphs mc @ glyphs cr) \<and>
         had_error (FeatCtx_addMark ctx name cr) = had_error ctx"
  using assms by (simp add: FeatCtx_addMark_def ClassRec_concat_def)

text \<open>
  C8: for two class records \<^verbatim>\<open>c\<close> and \<^verbatim>\<open>other\<close> (two objects, at the addresses \<open>this\<close>
  and \<open>other\<close> of the store), the call \<^verbatim>\<open>c.concat(other)\<close> returns, the glyph sequence of
  \<^verbatim>\<open>c\<close> is afterwards its old glyph sequence followed by the glyph sequence of \<^verbatim>\<open>other\<close>,
  every other field of \<^verbatim>\<open>c\<close> is unchanged, \<^verbatim>\<open>other\<close> is unchanged, and so is every other
  object of the store.
\<close>

theorem concat_call_appends_frame:
  assumes "h this = Some c" and "h other = Some oc" and "this \<noteq> other"
  shows "\<exists>h' c'. concat_call h this other = Some h' \<and> h' this = Some c' \<and>
           glyphs c' = glyphs c @ glyphs oc \<and>
           c' = c\<lparr>glyphs := glyphs c'\<rparr> \<and>
           lookupLabels c' = lookupLabels c \<and> metricsInfo c' = metricsInfo c \<and>
           markClassName c' = markClassName c \<and>
           marked c' = marked c \<and> gclass c' = gclass c \<and> backtrack c' = backtrack c \<and>
           input c' = input c \<and> lookahead c' = lookahead c \<and> basenode c' = basenode c \<and>
           marknode c' = marknode c \<and> used_mark_class c' = used_mark_class c \<and>
           h' other = Some oc \<and>
           (\<forall>q. q \<noteq> this \<longrightarrow> h' q = h q)"
  using assms by (simp add: concat_call_def ClassRec_concat_def)

text \<open>The class [5, 3] at address 0 and the class [4] at address 1.\<close>

theorem concat_call_appends_frame_witness:
  "\<exists>h'. concat_call [0 \<mapsto> ClassRec_of_gids [5, 3], 1 \<mapsto> ClassRec_of_gids [4]] 0 1 = Some h' \<and>
        map_option glyphs (h' 0) = Some (map GlyphRec_of [5, 3, 4]) \<and>
        h' 1 = Some (ClassRec_of_gids [4])"
  using concat_call_appends_frame
    [of "[0 \<mapsto> ClassRec_of_gids [5, 3], 1 \<mapsto> ClassRec_of_gids [4]]" 0
        "ClassRec_of_gids [5, 3]" 1 "ClassRec_of_gids [4]"]
  by (auto simp add: ClassRec_of_gids_def ClassRec_with_def)

subsection \<open>The library's sort: insertion sort\<close>

text \<open>
  Throughout, the comparison \<open>lt\<close> is the strict order of a key \<open>f\<close> into a linear
  order, as \<^verbatim>\<open>operator<\<close> of glyph records is the order of their GIDs. The unguarded
  insertion stops inside the range as soon as an element before the inserted one is not
  above it; this is why the final insertion sort needs a least element among the first
  16.
\<close>

lemma unguarded_linear_insert_loop_spec:
  "(\<And>a b. lt a b \<longleftrightarrow> f a < f b) \<Longrightarrow> la < length xs \<Longrightarrow> \<exists>j<la. f (xs ! j) \<le> f v \<Longrightarrow>
   \<exists>p. 0 < p \<and> p \<le> la \<and>
     unguarded_linear_insert_loop (lt) xs v la =
       Some (take p xs @ v # drop p (take la xs) @ drop (Suc la) xs) \<and>
     f (xs ! (p - 1)) \<le> f v \<and> (\<forall>b\<in>set (drop p (take la xs)). f v < f b)"
  for f :: "'a \<Rightarrow> 'k::linorder"
proof (induction la arbitrary: xs)
  case 0
  then show ?case by simp
next
  case (Suc n)
  show ?case
  proof (cases "f v < f (xs ! n)")
    case True
    let ?xs' = "xs[Suc n := xs ! n]"
    from Suc.prems(3) obtain j where j: "j < Suc n" "f (xs ! j) \<le> f v" by blast
    with True have "j < n" by (cases "j = n") auto
    with j have sent: "\<exists>j<n. f (?xs' ! j) \<le> f v" by auto
    have len: "n < length ?xs'" using Suc.prems(2) by simp
    from Suc.IH [OF Suc.prems(1) len sent] obtain p where p: "0 < p" "p \<le> n"
      and r: "unguarded_linear_insert_loop (lt) ?xs' v n =
                Some (take p ?xs' @ v # drop p (take n ?xs') @ drop (Suc n) ?xs')"
      and le: "f (?xs' ! (p - 1)) \<le> f v"
      and gt: "\<forall>b\<in>set (drop p (take n ?xs')). f v < f b"
      by blast
    have t1: "take p ?xs' = take p xs" using p by simp
    have t2: "take n ?xs' = take n xs" by simp
    have t3: "drop (Suc n) ?xs' = xs ! n # drop (Suc (Suc n)) xs"
      using Suc.prems(2) by (simp add: drop_update_cancel Cons_nth_drop_Suc [symmetric] upd_conv_take_nth_drop)
    have t4: "drop p (take (Suc n) xs) = drop p (take n xs) @ [xs ! n]"
      using p Suc.prems(2) by (simp add: take_Suc_conv_app_nth)
    have t5: "?xs' ! (p - 1) = xs ! (p - 1)" using p by simp
    show ?thesis
      apply (rule exI [of _ p])
      using p r le gt True Suc.prems(1) [of v "xs ! n"] unfolding t1 t2 t3 t4 t5 by auto
  next
    case False
    have "xs[Suc n := v] = take (Suc n) xs @ v # drop (Suc (Suc n)) xs"
      using Suc.prems(2) by (rule upd_conv_take_nth_drop)
    with False Suc.prems(1) [of v "xs ! n"] show ?thesis
      by (intro exI [of _ "Suc n"]) auto
  qed
qed


lemma sorted_map_le_last:
  "sorted (map f A) \<Longrightarrow> a \<in> set A \<Longrightarrow> f a \<le> f (last A)"
  for f :: "'a \<Rightarrow> 'k::linorder"
  by (induction A) (auto split: if_splits)

lemma unguarded_linear_insert_step:
  fixes f :: "'a \<Rightarrow> 'k::linorder"
  assumes lt: "\<And>a b. lt a b \<longleftrightarrow> f a < f b"
    and i: "i < length xs" "0 < i"
    and srt: "sorted (map f (take i xs))"
    and sent: "f (xs ! 0) \<le> f (xs ! i)"
  shows "\<exists>ys. unguarded_linear_insert lt xs i = Some ys \<and> length ys = length xs \<and>
           mset ys = mset xs \<and> drop (Suc i) ys = drop (Suc i) xs \<and>
           sorted (map f (take (Suc i) ys)) \<and> ys ! 0 = xs ! 0"
proof -
  let ?v = "xs ! i"
  have "\<exists>j<i. f (xs ! j) \<le> f ?v" using i sent by blast
  from unguarded_linear_insert_loop_spec [OF lt i(1) this]
  obtain p where p: "0 < p" "p \<le> i"
    and r: "unguarded_linear_insert_loop lt xs ?v i =
              Some (take p xs @ ?v # drop p (take i xs) @ drop (Suc i) xs)"
    and le: "f (xs ! (p - 1)) \<le> f ?v"
    and gt: "\<forall>b\<in>set (drop p (take i xs)). f ?v < f b"
    by blast
  define A where "A = take p xs"
  define B where "B = drop p (take i xs)"
  define C where "C = drop (Suc i) xs"
  have AB: "take i xs = A @ B"
    unfolding A_def B_def using p
    by (metis append_take_drop_id min.absorb1 take_take)
  have xs: "xs = A @ B @ ?v # C"
    unfolding C_def using id_take_nth_drop [OF i(1)] AB by simp
  have lenA: "length A = p" unfolding A_def using p i by simp
  have lenAB: "i = length A + length B"
    using AB i by (metis length_append length_take min.absorb2 less_imp_le)
  have A_ne: "A \<noteq> []" using lenA p by auto
  have lastA: "last A = xs ! (p - 1)"
    using A_ne lenA p i unfolding A_def by (simp add: last_conv_nth)
  have sAB: "sorted (map f (A @ B))" using srt AB by simp
  have leA: "\<forall>a\<in>set A. f a \<le> f ?v"
  proof
    fix a assume "a \<in> set A"
    with sAB have "f a \<le> f (last A)" by (auto simp add: sorted_append intro: sorted_map_le_last)
    with le lastA show "f a \<le> f ?v" by simp
  qed
  have gtB: "\<forall>b\<in>set B. f ?v < f b" using gt unfolding B_def .
  let ?ys = "A @ ?v # B @ C"
  have res: "unguarded_linear_insert lt xs i = Some ?ys"
    using r i unfolding unguarded_linear_insert_def A_def B_def C_def by simp
  have tk: "take (Suc i) ?ys = A @ ?v # B"
    using lenAB by simp
  have dr: "drop (Suc i) ?ys = C" using lenAB by simp
  have s: "sorted (map f (A @ ?v # B))"
    using sAB leA gtB by (auto simp add: sorted_append less_imp_le)
  have m: "mset ?ys = mset xs" by (subst (2) xs) simp
  have l: "length ?ys = length xs" by (subst (2) xs) simp
  have z: "?ys ! 0 = xs ! 0" using A_ne by (subst (2) xs) (simp add: nth_append)
  have dr': "drop (Suc i) ?ys = drop (Suc i) xs" using dr by (simp only: C_def)
  have s': "sorted (map f (take (Suc i) ?ys))" unfolding tk by (rule s)
  from res l m dr' s' z show ?thesis by blast
qed

lemma drop_eq_mono: "drop k ys = drop k xs \<Longrightarrow> k \<le> n \<Longrightarrow> drop n ys = drop n xs"
  by (metis drop_drop le_add_diff_inverse2)

lemma sorted_map_hd_le:
  "sorted (map f A) \<Longrightarrow> a \<in> set A \<Longrightarrow> f (A ! 0) \<le> f a"
  for f :: "'a \<Rightarrow> 'k::linorder"
  by (cases A) auto

lemma take_mset_eq:
  "mset ys = mset xs \<Longrightarrow> drop k ys = drop k xs \<Longrightarrow> mset (take k ys) = mset (take k xs)"
proof -
  assume m: "mset ys = mset xs" and d: "drop k ys = drop k xs"
  have "mset (take k ys) + mset (drop k ys) = mset (take k xs) + mset (drop k xs)"
    using m by (metis append_take_drop_id mset_append)
  with d show ?thesis by simp
qed

lemma move_backward_insert_step:
  fixes f :: "'a \<Rightarrow> 'k::linorder"
  assumes i: "i < length xs" "0 < i"
    and srt: "sorted (map f (take i xs))"
    and less: "f (xs ! i) < f (xs ! 0)"
  shows "length (move_backward_insert xs 0 i) = length xs \<and>
         mset (move_backward_insert xs 0 i) = mset xs \<and>
         drop (Suc i) (move_backward_insert xs 0 i) = drop (Suc i) xs \<and>
         sorted (map f (take (Suc i) (move_backward_insert xs 0 i)))"
proof -
  let ?ys = "xs ! i # take i xs @ drop (Suc i) xs"
  have ys: "move_backward_insert xs 0 i = ?ys" by (simp add: move_backward_insert_def)
  have xs: "xs = take i xs @ xs ! i # drop (Suc i) xs" using i(1) by (rule id_take_nth_drop)
  have li: "length (take i xs) = i" using i by simp
  have l: "length ?ys = length xs" by (subst (3) xs) simp
  have m: "mset ?ys = mset xs" by (subst (3) xs) simp
  have d: "drop (Suc i) ?ys = drop (Suc i) xs" using li by simp
  have t: "take (Suc i) ?ys = xs ! i # take i xs" using li by simp
  have "\<forall>a\<in>set (take i xs). f (xs ! 0) \<le> f a"
    using sorted_map_hd_le [OF srt] i by simp
  with less have "\<forall>a\<in>set (take i xs). f (xs ! i) \<le> f a" by fastforce
  with srt have s: "sorted (map f (xs ! i # take i xs))" by simp
  show ?thesis unfolding ys using l m d s t by simp
qed

lemma insertion_sort_loop_spec:
  fixes f :: "'a \<Rightarrow> 'k::linorder"
  assumes lt: "\<And>a b. lt a b \<longleftrightarrow> f a < f b"
  shows "0 < i \<Longrightarrow> i \<le> la \<Longrightarrow> la \<le> length xs \<Longrightarrow> sorted (map f (take i xs)) \<Longrightarrow>
     \<exists>ys. insertion_sort_loop lt xs 0 i la = Some ys \<and> length ys = length xs \<and>
       mset ys = mset xs \<and> drop la ys = drop la xs \<and> sorted (map f (take la ys))"
proof (induction "la - i" arbitrary: i xs)
  case 0
  then have "i = la" by simp
  with 0 show ?case by (subst insertion_sort_loop.simps) simp
next
  case (Suc d)
  then have i: "i < la" "i < length xs" "0 < i" "Suc i \<le> la" and d: "d = la - Suc i" by simp_all
  show ?case
  proof (cases "f (xs ! i) < f (xs ! 0)")
    case True
    let ?xs' = "move_backward_insert xs 0 i"
    from move_backward_insert_step [OF i(2) i(3) Suc.prems(4) True]
    have l: "length ?xs' = length xs" and m: "mset ?xs' = mset xs"
      and dr: "drop (Suc i) ?xs' = drop (Suc i) xs"
      and s: "sorted (map f (take (Suc i) ?xs'))" by simp_all
    from Suc.hyps(1) [OF d _ i(4) _ s] l Suc.prems(3)
    obtain ys where ys: "insertion_sort_loop lt ?xs' 0 (Suc i) la = Some ys"
      "length ys = length ?xs'" "mset ys = mset ?xs'" "drop la ys = drop la ?xs'"
      "sorted (map f (take la ys))" by auto
    have step: "insertion_sort_loop lt xs 0 i la = insertion_sort_loop lt ?xs' 0 (Suc i) la"
      using i True lt [of "xs ! i" "xs ! 0"] by (subst insertion_sort_loop.simps) simp
    from ys l m drop_eq_mono [OF dr i(4)] show ?thesis unfolding step by auto
  next
    case False
    then have "f (xs ! 0) \<le> f (xs ! i)" by simp
    from unguarded_linear_insert_step [where lt = lt and f = f, OF lt i(2) i(3) Suc.prems(4) this]
    obtain xs' where r: "unguarded_linear_insert lt xs i = Some xs'"
      and l: "length xs' = length xs" and m: "mset xs' = mset xs"
      and dr: "drop (Suc i) xs' = drop (Suc i) xs"
      and s: "sorted (map f (take (Suc i) xs'))" by blast
    from Suc.hyps(1) [OF d _ i(4) _ s] l Suc.prems(3)
    obtain ys where ys: "insertion_sort_loop lt xs' 0 (Suc i) la = Some ys"
      "length ys = length xs'" "mset ys = mset xs'" "drop la ys = drop la xs'"
      "sorted (map f (take la ys))" by auto
    have step: "insertion_sort_loop lt xs 0 i la = insertion_sort_loop lt xs' 0 (Suc i) la"
      using i False r lt [of "xs ! i" "xs ! 0"] by (subst insertion_sort_loop.simps) simp
    from ys l m drop_eq_mono [OF dr i(4)] show ?thesis unfolding step by auto
  qed
qed

lemma unguarded_insertion_sort_spec:
  fixes f :: "'a \<Rightarrow> 'k::linorder"
  assumes lt: "\<And>a b. lt a b \<longleftrightarrow> f a < f b"
  shows "0 < i \<Longrightarrow> i \<le> la \<Longrightarrow> la \<le> length xs \<Longrightarrow> sorted (map f (take i xs)) \<Longrightarrow>
     \<forall>x\<in>set xs. f (xs ! 0) \<le> f x \<Longrightarrow>
     \<exists>ys. unguarded_insertion_sort lt xs i la = Some ys \<and> length ys = length xs \<and>
       mset ys = mset xs \<and> drop la ys = drop la xs \<and> sorted (map f (take la ys))"
proof (induction "la - i" arbitrary: i xs)
  case 0
  then have "i = la" by simp
  with 0 show ?case by (subst unguarded_insertion_sort.simps) simp
next
  case (Suc d)
  then have i: "i < la" "i < length xs" "0 < i" "Suc i \<le> la" and d: "d = la - Suc i" by simp_all
  from Suc.prems(5) i(2) have "f (xs ! 0) \<le> f (xs ! i)" by simp
  from unguarded_linear_insert_step [where lt = lt and f = f, OF lt i(2) i(3) Suc.prems(4) this]
  obtain xs' where r: "unguarded_linear_insert lt xs i = Some xs'"
    and l: "length xs' = length xs" and m: "mset xs' = mset xs"
    and dr: "drop (Suc i) xs' = drop (Suc i) xs"
    and s: "sorted (map f (take (Suc i) xs'))" and z: "xs' ! 0 = xs ! 0" by blast
  from m have "set xs' = set xs" by (rule mset_eq_setD)
  with Suc.prems(5) z have min: "\<forall>x\<in>set xs'. f (xs' ! 0) \<le> f x" by simp
  from Suc.hyps(1) [OF d _ i(4) _ s min] l Suc.prems(3)
  obtain ys where ys: "unguarded_insertion_sort lt xs' (Suc i) la = Some ys"
    "length ys = length xs'" "mset ys = mset xs'" "drop la ys = drop la xs'"
    "sorted (map f (take la ys))" by auto
  have step: "unguarded_insertion_sort lt xs i la = unguarded_insertion_sort lt xs' (Suc i) la"
    using i r by (subst unguarded_insertion_sort.simps) simp
  from ys l m drop_eq_mono [OF dr i(4)] show ?case unfolding step by auto
qed

lemma insertion_sort_spec:
  fixes f :: "'a \<Rightarrow> 'k::linorder"
  assumes lt: "\<And>a b. lt a b \<longleftrightarrow> f a < f b" and la: "la \<le> length xs"
  shows "\<exists>ys. insertion_sort lt xs 0 la = Some ys \<and> length ys = length xs \<and>
       mset ys = mset xs \<and> drop la ys = drop la xs \<and> sorted (map f (take la ys))"
proof (cases "la = 0")
  case True
  then show ?thesis by (simp add: insertion_sort_def)
next
  case False
  then have "0 < (1::nat)" "1 \<le> la" by simp_all
  moreover have "sorted (map f (take 1 xs))" by (cases xs) simp_all
  ultimately show ?thesis
    using insertion_sort_loop_spec [where lt = lt and f = f and i = 1, OF lt _ _ la] False
    by (simp add: insertion_sort_def)
qed

lemma final_insertion_sort_spec:
  fixes f :: "'a \<Rightarrow> 'k::linorder"
  assumes lt: "\<And>a b. lt a b \<longleftrightarrow> f a < f b"
    and front: "16 < length xs \<Longrightarrow> \<exists>j<16. \<forall>x\<in>set xs. f (xs ! j) \<le> f x"
  shows "\<exists>ys. final_insertion_sort lt xs 0 (length xs) = Some ys \<and>
           mset ys = mset xs \<and> sorted (map f ys)"
proof (cases "16 < length xs")
  case False
  with insertion_sort_spec [where lt = lt and f = f and la = "length xs" and xs = xs, OF lt] show ?thesis
    by (auto simp add: final_insertion_sort_def S_threshold_def)
next
  case True
  then have le: "16 \<le> length xs" by simp
  from insertion_sort_spec [where lt = lt and f = f, OF lt le]
  obtain ys where r: "insertion_sort lt xs 0 16 = Some ys" and l: "length ys = length xs"
    and m: "mset ys = mset xs" and dr: "drop 16 ys = drop 16 xs"
    and s: "sorted (map f (take 16 ys))" by blast
  from front [OF True] obtain j where j: "j < 16" "\<forall>x\<in>set xs. f (xs ! j) \<le> f x" by blast
  have "xs ! j \<in> set (take 16 xs)"
    using j(1) True by (metis in_set_conv_nth length_take min.absorb2 le nth_take)
  moreover have "set (take 16 ys) = set (take 16 xs)"
    using take_mset_eq [OF m dr] by (rule mset_eq_setD)
  ultimately have "xs ! j \<in> set (take 16 ys)" by simp
  from sorted_map_hd_le [OF s this] True l have "f (ys ! 0) \<le> f (xs ! j)" by simp
  moreover from m have "set ys = set xs" by (rule mset_eq_setD)
  ultimately have min: "\<forall>x\<in>set ys. f (ys ! 0) \<le> f x" using j(2) by fastforce
  have "(0::nat) < 16" by simp
  from unguarded_insertion_sort_spec [where lt = lt and f = f and la = "length xs", OF lt this _ _ s min] l le
  obtain zs where z: "unguarded_insertion_sort lt ys 16 (length xs) = Some zs"
    "length zs = length ys" "mset zs = mset ys" "sorted (map f (take (length xs) zs))"
    by auto
  with l have "sorted (map f zs)" by simp
  with z m r True show ?thesis
    by (auto simp add: final_insertion_sort_def S_threshold_def)
qed

subsection \<open>The library's sort: partition\<close>

text \<open>
  The two scans stop inside the range because of sentinels: the pivot itself, put at
  the front by the median step, lies between two elements of the range. The partition
  returns a cut strictly inside the range with no element before the cut above one
  after it, and touches nothing outside the range.
\<close>

lemma scan_down_le: "scan_down lt xs pivot j = Some k \<Longrightarrow> k \<le> j"
  by (induction j) (auto split: if_splits)

lemma scan_up_spec:
  fixes f :: "'a \<Rightarrow> 'k::linorder"
  assumes lt: "\<And>a b. lt a b \<longleftrightarrow> f a < f b"
  shows "fi \<le> s \<Longrightarrow> s < length xs \<Longrightarrow> p < length xs \<Longrightarrow> f (xs ! p) \<le> f (xs ! s) \<Longrightarrow>
     \<exists>i. scan_up lt xs p fi = Some i \<and> fi \<le> i \<and> i \<le> s \<and> f (xs ! p) \<le> f (xs ! i) \<and>
       (\<forall>k. fi \<le> k \<and> k < i \<longrightarrow> f (xs ! k) < f (xs ! p))"
proof (induction "s - fi" arbitrary: fi)
  case 0
  then have "fi = s" by simp
  with 0 lt [of "xs ! s" "xs ! p"] show ?case
    by (subst scan_up.simps) auto
next
  case (Suc d)
  then have fi: "fi < s" "fi < length xs" and d: "d = s - Suc fi" by simp_all
  show ?case
  proof (cases "f (xs ! fi) < f (xs ! p)")
    case True
    from Suc.hyps(1) [OF d _ Suc.prems(2,3,4)] fi
    obtain i where i: "scan_up lt xs p (Suc fi) = Some i" "Suc fi \<le> i" "i \<le> s"
      "f (xs ! p) \<le> f (xs ! i)" "\<forall>k. Suc fi \<le> k \<and> k < i \<longrightarrow> f (xs ! k) < f (xs ! p)"
      by auto
    have "scan_up lt xs p fi = scan_up lt xs p (Suc fi)"
      using True fi Suc.prems(3) lt [of "xs ! fi" "xs ! p"] by (subst scan_up.simps) simp
    moreover have "\<forall>k. fi \<le> k \<and> k < i \<longrightarrow> f (xs ! k) < f (xs ! p)"
      using i(5) True by (metis Suc_leI le_neq_implies_less)
    ultimately show ?thesis using i by (intro exI [of _ i]) auto
  next
    case False
    then have "scan_up lt xs p fi = Some fi"
      using fi Suc.prems(3) lt [of "xs ! fi" "xs ! p"] by (subst scan_up.simps) simp
    with False fi show ?thesis by (intro exI [of _ fi]) auto
  qed
qed

lemma scan_down_spec:
  fixes f :: "'a \<Rightarrow> 'k::linorder"
  assumes lt: "\<And>a b. lt a b \<longleftrightarrow> f a < f b"
  shows "s \<le> j \<Longrightarrow> j < length xs \<Longrightarrow> p < length xs \<Longrightarrow> f (xs ! s) \<le> f (xs ! p) \<Longrightarrow>
     \<exists>j'. scan_down lt xs p j = Some j' \<and> s \<le> j' \<and> j' \<le> j \<and> f (xs ! j') \<le> f (xs ! p) \<and>
       (\<forall>k. j' < k \<and> k \<le> j \<longrightarrow> f (xs ! p) < f (xs ! k))"
proof (induction j)
  case 0
  with lt [of "xs ! p" "xs ! 0"] show ?case by auto
next
  case (Suc n)
  show ?case
  proof (cases "f (xs ! p) < f (xs ! Suc n)")
    case True
    with Suc.prems have "s \<noteq> Suc n" by auto
    with Suc.prems have "s \<le> n" "n < length xs" by simp_all
    from Suc.IH [OF this Suc.prems(3,4)]
    obtain j' where j': "scan_down lt xs p n = Some j'" "s \<le> j'" "j' \<le> n"
      "f (xs ! j') \<le> f (xs ! p)" "\<forall>k. j' < k \<and> k \<le> n \<longrightarrow> f (xs ! p) < f (xs ! k)"
      by blast
    have "scan_down lt xs p (Suc n) = scan_down lt xs p n"
      using True Suc.prems lt [of "xs ! p" "xs ! Suc n"] by simp
    moreover have "\<forall>k. j' < k \<and> k \<le> Suc n \<longrightarrow> f (xs ! p) < f (xs ! k)"
      using j'(5) True by (metis le_SucE)
    ultimately show ?thesis using j' by (intro exI [of _ j']) auto
  next
    case False
    then have "scan_down lt xs p (Suc n) = Some (Suc n)"
      using Suc.prems lt [of "xs ! p" "xs ! Suc n"] by simp
    with False Suc.prems show ?thesis by (intro exI [of _ "Suc n"]) auto
  qed
qed

lemma swap_props:
  assumes "i < length xs" "j < length xs"
  shows "length (xs[i := xs ! j, j := xs ! i]) = length xs"
    and "mset (xs[i := xs ! j, j := xs ! i]) = mset xs"
    and "(xs[i := xs ! j, j := xs ! i]) ! j = xs ! i"
    and "(xs[i := xs ! j, j := xs ! i]) ! i = xs ! j"
    and "k \<noteq> i \<Longrightarrow> k \<noteq> j \<Longrightarrow> (xs[i := xs ! j, j := xs ! i]) ! k = xs ! k"
  using assms by (simp_all add: mset_swap nth_list_update)

lemma unguarded_partition_spec:
  fixes f :: "'a \<Rightarrow> 'k::linorder"
  assumes lt: "\<And>a b. lt a b \<longleftrightarrow> f a < f b"
  shows "p < lo \<Longrightarrow> lo \<le> fi \<Longrightarrow> fi \<le> la \<Longrightarrow> la \<le> hi \<Longrightarrow> hi \<le> length xs \<Longrightarrow>
     \<forall>k. lo \<le> k \<and> k < fi \<longrightarrow> f (xs ! k) \<le> f (xs ! p) \<Longrightarrow>
     \<forall>k. la \<le> k \<and> k < hi \<longrightarrow> f (xs ! p) \<le> f (xs ! k) \<Longrightarrow>
     \<exists>s. fi \<le> s \<and> s < hi \<and> f (xs ! p) \<le> f (xs ! s) \<Longrightarrow>
     \<exists>ys c. unguarded_partition lt xs fi la p = Some (ys, c) \<and> length ys = length xs \<and>
       mset ys = mset xs \<and> (\<forall>k. k < lo \<or> hi \<le> k \<longrightarrow> ys ! k = xs ! k) \<and>
       lo \<le> c \<and> c \<le> hi \<and>
       (\<forall>k. lo \<le> k \<and> k < c \<longrightarrow> f (ys ! k) \<le> f (ys ! p)) \<and>
       (\<forall>k. c \<le> k \<and> k < hi \<longrightarrow> f (ys ! p) \<le> f (ys ! k))"
proof (induction la arbitrary: xs fi rule: less_induct)
  case (less la)
  note left = less.prems(6) and right = less.prems(7)
  from less.prems(8) obtain s where s: "fi \<le> s" "s < hi" "f (xs ! p) \<le> f (xs ! s)" by blast
  from less.prems have pl: "p < length xs" and sl: "s < length xs" using s by simp_all
  from scan_up_spec [where lt = lt and f = f, OF lt s(1) sl pl s(3)]
  obtain i where i: "scan_up lt xs p fi = Some i" "fi \<le> i" "i \<le> s"
    "f (xs ! p) \<le> f (xs ! i)" "\<forall>k. fi \<le> k \<and> k < i \<longrightarrow> f (xs ! k) < f (xs ! p)"
    by blast
  from less.prems have la0: "la \<noteq> 0" "p \<le> la - 1" "la - 1 < length xs" by simp_all
  have pp: "f (xs ! p) \<le> f (xs ! p)" by simp
  from scan_down_spec [where lt = lt and f = f, OF lt la0(2) la0(3) pl pp]
  obtain j where j: "scan_down lt xs p (la - 1) = Some j" "p \<le> j" "j \<le> la - 1"
    "f (xs ! j) \<le> f (xs ! p)" "\<forall>k. j < k \<and> k \<le> la - 1 \<longrightarrow> f (xs ! p) < f (xs ! k)"
    by blast
  show ?case
  proof (cases "i < j")
    case False
    have r: "unguarded_partition lt xs fi la p = Some (xs, i)"
      using i(1) j(1) la0(1) False by (subst unguarded_partition.simps) simp
    have l: "\<forall>k. lo \<le> k \<and> k < i \<longrightarrow> f (xs ! k) \<le> f (xs ! p)"
    proof (intro allI impI)
      fix k assume k: "lo \<le> k \<and> k < i"
      show "f (xs ! k) \<le> f (xs ! p)"
      proof (cases "k < fi")
        case True
        with k left show ?thesis by blast
      next
        case False
        with k i(5) have "f (xs ! k) < f (xs ! p)" by simp
        then show ?thesis by simp
      qed
    qed
    have rt: "\<forall>k. i \<le> k \<and> k < hi \<longrightarrow> f (xs ! p) \<le> f (xs ! k)"
    proof (intro allI impI)
      fix k assume k: "i \<le> k \<and> k < hi"
      consider "la \<le> k" | "j < k" "k \<le> la - 1" | "k \<le> j" using la0 by linarith
      then show "f (xs ! p) \<le> f (xs ! k)"
      proof cases
        case 1
        with k right show ?thesis by blast
      next
        case 2
        with j(5) have "f (xs ! p) < f (xs ! k)" by blast
        then show ?thesis by simp
      next
        case 3
        with k False have "k = i" by simp
        with i(4) show ?thesis by simp
      qed
    qed
    from r l rt i(2,3) s(2) less.prems(2) show ?thesis by auto
  next
    case True
    let ?ys = "xs[i := xs ! j, j := xs ! i]"
    from True j(3) la0 have il: "i < length xs" and jl: "j < length xs" by simp_all
    have sw: "iter_swap xs i j = Some ?ys" using il jl by (simp add: iter_swap_def)
    have r: "unguarded_partition lt xs fi la p = unguarded_partition lt ?ys (Suc i) j p"
      using i(1) j(1) la0(1) True sw by (subst unguarded_partition.simps) simp
    have pi: "p \<noteq> i" "p \<noteq> j" using less.prems(1,2) i(2) True by simp_all
    have yp: "?ys ! p = xs ! p" using pi by (simp add: swap_props(5) [OF il jl])
    have jla: "j < la" using j(3) la0 by simp
    have l': "\<forall>k. lo \<le> k \<and> k < Suc i \<longrightarrow> f (?ys ! k) \<le> f (?ys ! p)"
    proof (intro allI impI)
      fix k assume k: "lo \<le> k \<and> k < Suc i"
      show "f (?ys ! k) \<le> f (?ys ! p)"
      proof (cases "k = i")
        case True
        then show ?thesis using j(4) yp swap_props(4) [OF il jl] by simp
      next
        case False
        with k True have ne: "k \<noteq> i" "k \<noteq> j" by simp_all
        have "f (xs ! k) \<le> f (xs ! p)"
        proof (cases "k < fi")
          case True
          with k left show ?thesis by blast
        next
          case False
          with k ne i(5) have "f (xs ! k) < f (xs ! p)" by simp
          then show ?thesis by simp
        qed
        then show ?thesis using yp swap_props(5) [OF il jl ne] by simp
      qed
    qed
    have r': "\<forall>k. j \<le> k \<and> k < hi \<longrightarrow> f (?ys ! p) \<le> f (?ys ! k)"
    proof (intro allI impI)
      fix k assume k: "j \<le> k \<and> k < hi"
      show "f (?ys ! p) \<le> f (?ys ! k)"
      proof (cases "k = j")
        case True
        then show ?thesis using i(4) yp swap_props(3) [OF il jl] by simp
      next
        case False
        with k True have ne: "k \<noteq> i" "k \<noteq> j" by simp_all
        have "f (xs ! p) \<le> f (xs ! k)"
        proof (cases "la \<le> k")
          case True
          with k right show ?thesis by blast
        next
          case False
          with k ne j(5) have "f (xs ! p) < f (xs ! k)" by simp
          then show ?thesis by simp
        qed
        then show ?thesis using yp swap_props(5) [OF il jl ne] by simp
      qed
    qed
    have sent': "\<exists>s. Suc i \<le> s \<and> s < hi \<and> f (?ys ! p) \<le> f (?ys ! s)"
      using True jla less.prems(4) r' by (intro exI [of _ j]) auto
    have hl: "hi \<le> length ?ys" using less.prems(5) by simp
    from less.IH [OF jla less.prems(1) _ _ _ hl l' r' sent'] True jla less.prems(2,4) i(2)
    obtain zs c where z: "unguarded_partition lt ?ys (Suc i) j p = Some (zs, c)"
      "length zs = length ?ys" "mset zs = mset ?ys"
      "\<forall>k. k < lo \<or> hi \<le> k \<longrightarrow> zs ! k = ?ys ! k" "lo \<le> c" "c \<le> hi"
      "\<forall>k. lo \<le> k \<and> k < c \<longrightarrow> f (zs ! k) \<le> f (zs ! p)"
      "\<forall>k. c \<le> k \<and> k < hi \<longrightarrow> f (zs ! p) \<le> f (zs ! k)"
      by auto
    have out: "\<forall>k. k < lo \<or> hi \<le> k \<longrightarrow> zs ! k = xs ! k"
    proof (intro allI impI)
      fix k assume k: "k < lo \<or> hi \<le> k"
      with less.prems(2,4) i(2) True jla have ne: "k \<noteq> i" "k \<noteq> j" by auto
      from k z(4) have "zs ! k = ?ys ! k" by blast
      with swap_props(5) [OF il jl ne] show "zs ! k = xs ! k" by simp
    qed
    from z out swap_props(1,2) [OF il jl] show ?thesis unfolding r by auto
  qed
qed

lemma iter_swap_sentinel:
  fixes f :: "'a \<Rightarrow> 'k::linorder"
  assumes "p < a" "a \<le> m" "m \<le> c" "c < length xs" "a \<le> s" "s \<le> c" "s \<noteq> m"
    and "f (xs ! m) \<le> f (xs ! s)"
  shows "\<exists>ys. iter_swap xs p m = Some ys \<and> length ys = length xs \<and> mset ys = mset xs \<and>
           (\<forall>k. k < p \<or> c < k \<longrightarrow> ys ! k = xs ! k) \<and>
           (\<exists>s. a \<le> s \<and> s \<le> c \<and> f (ys ! p) \<le> f (ys ! s))"
proof -
  let ?ys = "xs[p := xs ! m, m := xs ! p]"
  from assms have pl: "p < length xs" and ml: "m < length xs" by simp_all
  have r: "iter_swap xs p m = Some ?ys" using pl ml by (simp add: iter_swap_def)
  have sp: "s \<noteq> p" using assms by simp
  have "?ys ! p = xs ! m" by (rule swap_props(4) [OF pl ml])
  moreover have "?ys ! s = xs ! s" using sp assms(7) by (rule swap_props(5) [OF pl ml])
  ultimately have "f (?ys ! p) \<le> f (?ys ! s)" using assms(8) by simp
  moreover have "\<forall>k. k < p \<or> c < k \<longrightarrow> ?ys ! k = xs ! k"
    using assms(1-3) by (auto intro!: swap_props(5) [OF pl ml])
  ultimately show ?thesis
    using r swap_props(1,2) [OF pl ml] assms(5,6) by blast
qed

lemma move_median_to_first_spec:
  fixes f :: "'a \<Rightarrow> 'k::linorder"
  assumes lt: "\<And>a b. lt a b \<longleftrightarrow> f a < f b"
    and ord: "p < a" "a < b" "b < c" "c < length xs"
  shows "\<exists>ys. move_median_to_first lt xs p a b c = Some ys \<and> length ys = length xs \<and>
           mset ys = mset xs \<and> (\<forall>k. k < p \<or> c < k \<longrightarrow> ys ! k = xs ! k) \<and>
           (\<exists>s. a \<le> s \<and> s \<le> c \<and> f (ys ! p) \<le> f (ys ! s))"
proof -
  note ab = lt [of "xs ! a" "xs ! b"] and bc = lt [of "xs ! b" "xs ! c"]
    and ac = lt [of "xs ! a" "xs ! c"]
  have bnd: "\<not> length xs \<le> a" "\<not> length xs \<le> b" "\<not> length xs \<le> c" using ord by simp_all
  consider (1) "f (xs ! a) < f (xs ! b)" "f (xs ! b) < f (xs ! c)"
    | (2) "f (xs ! a) < f (xs ! b)" "\<not> f (xs ! b) < f (xs ! c)" "f (xs ! a) < f (xs ! c)"
    | (3) "f (xs ! a) < f (xs ! b)" "\<not> f (xs ! b) < f (xs ! c)" "\<not> f (xs ! a) < f (xs ! c)"
    | (4) "\<not> f (xs ! a) < f (xs ! b)" "f (xs ! a) < f (xs ! c)"
    | (5) "\<not> f (xs ! a) < f (xs ! b)" "\<not> f (xs ! a) < f (xs ! c)" "f (xs ! b) < f (xs ! c)"
    | (6) "\<not> f (xs ! a) < f (xs ! b)" "\<not> f (xs ! a) < f (xs ! c)" "\<not> f (xs ! b) < f (xs ! c)"
    by blast
  then show ?thesis
  proof cases
    case 1
    then have "move_median_to_first lt xs p a b c = iter_swap xs p b"
      using ab bc ac bnd by (simp add: move_median_to_first_def)
    moreover have "f (xs ! b) \<le> f (xs ! c)" using 1 by simp
    ultimately show ?thesis
      using iter_swap_sentinel [where f = f and p = p and a = a and m = b and c = c and s = c and xs = xs] ord
      by simp
  next
    case 2
    then have "move_median_to_first lt xs p a b c = iter_swap xs p c"
      using ab bc ac bnd by (simp add: move_median_to_first_def)
    moreover have "f (xs ! c) \<le> f (xs ! b)" using 2 by simp
    ultimately show ?thesis
      using iter_swap_sentinel [where f = f and p = p and a = a and m = c and c = c and s = b and xs = xs] ord
      by simp
  next
    case 3
    then have "move_median_to_first lt xs p a b c = iter_swap xs p a"
      using ab bc ac bnd by (simp add: move_median_to_first_def)
    moreover have "f (xs ! a) \<le> f (xs ! b)" using 3 by simp
    ultimately show ?thesis
      using iter_swap_sentinel [where f = f and p = p and a = a and m = a and c = c and s = b and xs = xs] ord
      by simp
  next
    case 4
    then have "move_median_to_first lt xs p a b c = iter_swap xs p a"
      using ab bc ac bnd by (simp add: move_median_to_first_def)
    moreover have "f (xs ! a) \<le> f (xs ! c)" using 4 by simp
    ultimately show ?thesis
      using iter_swap_sentinel [where f = f and p = p and a = a and m = a and c = c and s = c and xs = xs] ord
      by simp
  next
    case 5
    then have "move_median_to_first lt xs p a b c = iter_swap xs p c"
      using ab bc ac bnd by (simp add: move_median_to_first_def)
    moreover have "f (xs ! c) \<le> f (xs ! a)" using 5 by simp
    ultimately show ?thesis
      using iter_swap_sentinel [where f = f and p = p and a = a and m = c and c = c and s = a and xs = xs] ord
      by simp
  next
    case 6
    then have "move_median_to_first lt xs p a b c = iter_swap xs p b"
      using ab bc ac bnd by (simp add: move_median_to_first_def)
    moreover have "f (xs ! b) \<le> f (xs ! a)" using 6 by simp
    ultimately show ?thesis
      using iter_swap_sentinel [where f = f and p = p and a = a and m = b and c = c and s = a and xs = xs] ord
      by simp
  qed
qed

lemma unguarded_partition_pivot_spec:
  fixes f :: "'a \<Rightarrow> 'k::linorder"
  assumes lt: "\<And>a b. lt a b \<longleftrightarrow> f a < f b"
    and big: "fi + 16 < la" and la: "la \<le> length xs"
  shows "\<exists>ys c. unguarded_partition_pivot lt xs fi la = Some (ys, c) \<and>
           length ys = length xs \<and> mset ys = mset xs \<and>
           (\<forall>k. k < fi \<or> la \<le> k \<longrightarrow> ys ! k = xs ! k) \<and> fi < c \<and> c \<le> la \<and>
           (\<forall>i k. fi \<le> i \<and> i < c \<and> c \<le> k \<and> k < la \<longrightarrow> f (ys ! i) \<le> f (ys ! k))"
proof -
  let ?mid = "fi + (la - fi) div 2"
  have ord: "fi < fi + 1" "fi + 1 < ?mid" "?mid < la - 1" "la - 1 < length xs"
    using big la by simp_all
  from move_median_to_first_spec [where lt = lt and f = f, OF lt ord]
  obtain ys where ys: "move_median_to_first lt xs fi (fi + 1) ?mid (la - 1) = Some ys"
    "length ys = length xs" "mset ys = mset xs"
    "\<forall>k. k < fi \<or> la - 1 < k \<longrightarrow> ys ! k = xs ! k"
    "\<exists>s. fi + 1 \<le> s \<and> s \<le> la - 1 \<and> f (ys ! fi) \<le> f (ys ! s)"
    by blast
  have sent: "\<exists>s. fi + 1 \<le> s \<and> s < la \<and> f (ys ! fi) \<le> f (ys ! s)"
  proof -
    from ys(5) obtain s where "fi + 1 \<le> s" "s \<le> la - 1" "f (ys ! fi) \<le> f (ys ! s)" by blast
    moreover from this big have "s < la" by simp
    ultimately show ?thesis by blast
  qed
  have e1: "\<forall>k. fi + 1 \<le> k \<and> k < fi + 1 \<longrightarrow> f (ys ! k) \<le> f (ys ! fi)" by auto
  have e2: "\<forall>k. la \<le> k \<and> k < la \<longrightarrow> f (ys ! fi) \<le> f (ys ! k)" by auto
  have b: "fi < fi + 1" "fi + 1 \<le> fi + 1" "fi + 1 \<le> la" "la \<le> la" "la \<le> length ys"
    using big la ys(2) by simp_all
  from unguarded_partition_spec [where lt = lt and f = f, OF lt b e1 e2 sent]
  obtain zs c where z: "unguarded_partition lt ys (fi + 1) la fi = Some (zs, c)"
    "length zs = length ys" "mset zs = mset ys"
    "\<forall>k. k < fi + 1 \<or> la \<le> k \<longrightarrow> zs ! k = ys ! k" "fi + 1 \<le> c" "c \<le> la"
    "\<forall>k. fi + 1 \<le> k \<and> k < c \<longrightarrow> f (zs ! k) \<le> f (zs ! fi)"
    "\<forall>k. c \<le> k \<and> k < la \<longrightarrow> f (zs ! fi) \<le> f (zs ! k)"
    by blast
  have r: "unguarded_partition_pivot lt xs fi la = Some (zs, c)"
    using ys(1) z(1) big by (simp add: unguarded_partition_pivot_def Let_def)
  have out: "\<forall>k. k < fi \<or> la \<le> k \<longrightarrow> zs ! k = xs ! k"
  proof (intro allI impI)
    fix k assume k: "k < fi \<or> la \<le> k"
    then have "k < fi + 1 \<or> la \<le> k" by auto
    with z(4) have "zs ! k = ys ! k" by blast
    moreover from k big have "k < fi \<or> la - 1 < k" by auto
    with ys(4) have "ys ! k = xs ! k" by blast
    ultimately show "zs ! k = xs ! k" by simp
  qed
  have sep: "\<forall>i k. fi \<le> i \<and> i < c \<and> c \<le> k \<and> k < la \<longrightarrow> f (zs ! i) \<le> f (zs ! k)"
  proof (intro allI impI)
    fix i k assume a: "fi \<le> i \<and> i < c \<and> c \<le> k \<and> k < la"
    then have "f (zs ! fi) \<le> f (zs ! k)" using z(8) by blast
    moreover have "f (zs ! i) \<le> f (zs ! fi)"
    proof (cases "i = fi")
      case True
      then show ?thesis by simp
    next
      case False
      with a have "fi + 1 \<le> i \<and> i < c" by simp
      with z(7) show ?thesis by blast
    qed
    ultimately show "f (zs ! i) \<le> f (zs ! k)" by (rule order_trans [rotated])
  qed
  from r z(2,3,5,6) ys(2,3) out sep show ?thesis by auto
qed

subsection \<open>The library's sort: heapsort\<close>

text \<open>
  \<^verbatim>\<open>__adjust_heap\<close> restores the heap below a position whose subtrees are heaps,
  \<^verbatim>\<open>__make_heap\<close> builds a heap bottom up, and \<^verbatim>\<open>__sort_heap\<close> moves the greatest
  element behind the heap until the range is sorted.
\<close>

lemma parent_cases: "0 < c \<Longrightarrow> (c - 1) div 2 = k \<longleftrightarrow> (c = 2 * k + 1 \<or> c = 2 * k + 2)"
  for c k :: nat
  by (cases c) (simp, simp, presburger)

lemma loop_children: "k < (len - 1) div 2 \<Longrightarrow> 2 * (k + 1) < len"
  for k len :: nat
proof -
  assume a: "k < (len - 1) div 2"
  define m where "m = (len - 1) div 2"
  have "m * 2 \<le> len - 1" unfolding m_def by simp
  moreover from a have "k < m" unfolding m_def .
  ultimately show ?thesis by arith
qed

lemma even_special: "even len \<Longrightarrow> k = (len - 2) div 2 \<Longrightarrow> k < len \<Longrightarrow> len = 2 * k + 2"
  for k len :: nat
proof -
  assume a: "even len" "k = (len - 2) div 2" "k < len"
  then obtain m where l: "len = 2 * m" by (elim evenE)
  with a(3) have "0 < m" by simp
  then obtain n where "m = Suc n" by (cases m) auto
  with l a(2) show ?thesis by simp
qed

lemma leaf_no_child:
  "\<not> k < (len - 1) div 2 \<Longrightarrow> \<not> (even len \<and> k = (len - 2) div 2) \<Longrightarrow> 2 * k + 1 < len \<Longrightarrow> False"
  for k len :: nat
proof -
  assume a: "\<not> k < (len - 1) div 2" "\<not> (even len \<and> k = (len - 2) div 2)" "2 * k + 1 < len"
  obtain m where "len = 2 * m \<or> len = 2 * m + 1" by (metis oddE evenE)
  then show False
  proof
    assume l: "len = 2 * m"
    with a(3) have "0 < m" by simp
    then obtain n where m: "m = Suc n" by (cases m) auto
    with l have "(len - 1) div 2 = n" "(len - 2) div 2 = n" "even len" by simp_all
    with a l m show False by simp
  next
    assume l: "len = 2 * m + 1"
    then have "(len - 1) div 2 = m" by simp
    with a l show False by simp
  qed
qed

lemma parent_lt: "0 < c \<Longrightarrow> (c - 1) div 2 < c"
  for c :: nat
  by (cases c) (simp_all add: less_Suc_eq_le)

lemma child_lt: "0 < c \<Longrightarrow> (c - 1) div 2 = k \<Longrightarrow> k < c"
  for c k :: nat
  using parent_lt [of c] by simp

lemma half_bound: "n \<le> 2 * (n div 2) + 1"
  for n :: nat
  by arith


lemma in_subtree_refl: "in_subtree t t"
  by (subst in_subtree.simps) simp

lemma in_subtree_le: "in_subtree t k \<Longrightarrow> t \<le> k"
  by (subst (asm) in_subtree.simps) (auto split: if_splits)

lemma in_subtree_parent: "in_subtree t k \<Longrightarrow> k \<noteq> t \<Longrightarrow> in_subtree t ((k - 1) div 2)"
  by (subst (asm) in_subtree.simps) (auto split: if_splits)

lemma in_subtree_child:
  "in_subtree t k \<Longrightarrow> 0 < c \<Longrightarrow> (c - 1) div 2 = k \<Longrightarrow> in_subtree t c"
proof -
  assume a: "in_subtree t k" "0 < c" "(c - 1) div 2 = k"
  then have "k < c" by (simp add: child_lt)
  with in_subtree_le [OF a(1)] have "c \<noteq> t" "\<not> c < t" by simp_all
  with a show ?thesis by (subst in_subtree.simps) simp
qed

lemma mset_hole_move:
  "k \<noteq> c \<Longrightarrow> k < length g \<Longrightarrow> c < length g \<Longrightarrow>
     mset (g[k := g ! c, c := v]) = mset (g[k := v])"
proof -
  assume a: "k \<noteq> c" "k < length g" "c < length g"
  let ?y = "g[k := v]"
  have "mset (?y[k := ?y ! c, c := ?y ! k]) = mset ?y"
    using a by (intro mset_swap) simp_all
  moreover have "?y[k := ?y ! c, c := ?y ! k] = g[k := g ! c, c := v]"
    using a by simp
  ultimately show ?thesis by simp
qed

lemma hole_inv_descend:
  fixes f :: "'a \<Rightarrow> 'k::linorder"
  assumes inv: "hole_inv f t len g k"
    and c: "0 < c" "c < len" "(c - 1) div 2 = k"
    and big: "\<forall>d. 0 < d \<and> d < len \<and> (d - 1) div 2 = k \<longrightarrow> f (g ! d) \<le> f (g ! c)"
  shows "hole_inv f t len (g[k := g ! c]) c"
proof -
  from c have kc: "k < c" by (simp add: child_lt)
  from inv have len: "len \<le> length g" and k: "k < len" and sub: "in_subtree t k"
    and e: "\<And>i. 0 < i \<Longrightarrow> i < len \<Longrightarrow> t \<le> (i - 1) div 2 \<Longrightarrow> i \<noteq> k \<Longrightarrow> (i - 1) div 2 \<noteq> k
          \<Longrightarrow> f (g ! i) \<le> f (g ! ((i - 1) div 2))"
    and up: "\<And>d. k \<noteq> t \<Longrightarrow> 0 < d \<Longrightarrow> d < len \<Longrightarrow> (d - 1) div 2 = k
          \<Longrightarrow> f (g ! d) \<le> f (g ! ((k - 1) div 2))"
    unfolding hole_inv_def by auto
  have tk: "t \<le> k" using sub by (rule in_subtree_le)
  let ?g = "g[k := g ! c]"
  have kl: "k < length g" using k len by simp
  have e': "\<forall>i. 0 < i \<and> i < len \<and> t \<le> (i - 1) div 2 \<and> i \<noteq> c \<and> (i - 1) div 2 \<noteq> c
          \<longrightarrow> f (?g ! i) \<le> f (?g ! ((i - 1) div 2))"
  proof (intro allI impI)
    fix i assume i: "0 < i \<and> i < len \<and> t \<le> (i - 1) div 2 \<and> i \<noteq> c \<and> (i - 1) div 2 \<noteq> c"
    consider (child) "(i - 1) div 2 = k" | (self) "i = k" | (other) "i \<noteq> k" "(i - 1) div 2 \<noteq> k"
      by blast
    then show "f (?g ! i) \<le> f (?g ! ((i - 1) div 2))"
    proof cases
      case child
      with i child_lt [of i k] have "i \<noteq> k" by auto
      with child i big kl show ?thesis by simp
    next
      case self
      with i parent_lt [of k] have pk: "(k - 1) div 2 \<noteq> k" "t \<le> (k - 1) div 2" "0 < k"
        and "(k - 1) div 2 < k" by auto
      then have "k \<noteq> t" by simp
      from up [OF this c] self pk kl show ?thesis by simp
    next
      case other
      with i e [of i] show ?thesis by simp
    qed
  qed
  have up': "c \<noteq> t \<longrightarrow> (\<forall>d. 0 < d \<and> d < len \<and> (d - 1) div 2 = c
          \<longrightarrow> f (?g ! d) \<le> f (?g ! ((c - 1) div 2)))"
  proof (intro allI impI)
    fix d assume d: "0 < d \<and> d < len \<and> (d - 1) div 2 = c"
    then have "c < d" by (simp add: child_lt)
    with kc d tk have "d \<noteq> k" "(d - 1) div 2 \<noteq> k" "t \<le> (d - 1) div 2" by simp_all
    with e [of d] d have "f (g ! d) \<le> f (g ! c)" by simp
    with \<open>d \<noteq> k\<close> c kl show "f (?g ! d) \<le> f (?g ! ((c - 1) div 2))" by simp
  qed
  show ?thesis
    unfolding hole_inv_def
    using len c in_subtree_child [OF sub c(1,3)] e' up' by simp
qed

lemma adjust_heap_loop_spec:
  fixes f :: "'a \<Rightarrow> 'k::linorder"
  assumes lt: "\<And>a b. lt a b \<longleftrightarrow> f a < f b"
  shows "hole_inv f t len g k \<Longrightarrow>
     \<exists>g' k'. adjust_heap_loop lt g k len = Some (g', k') \<and> hole_inv f t len g' k' \<and>
       length g' = length g \<and> mset (g'[k' := v]) = mset (g[k := v]) \<and>
       drop len g' = drop len g \<and> \<not> k' < (len - 1) div 2"
proof (induction "len - k" arbitrary: g k rule: less_induct)
  case less
  note inv = less.prems
  from inv have len: "len \<le> length g" and k: "k < len" unfolding hole_inv_def by simp_all
  show ?case
  proof (cases "k < (len - 1) div 2")
    case False
    then have "adjust_heap_loop lt g k len = Some (g, k)"
      by (subst adjust_heap_loop.simps) simp
    with inv False show ?thesis by simp
  next
    case True
    let ?s = "2 * (k + 1)"
    from loop_children [OF True] have s: "?s < len" "0 < ?s - 1" "?s - 1 < len"
      "(?s - 1 - 1) div 2 = k" "(?s - 1) div 2 = k" "0 < ?s" by simp_all
    define c where "c = (if lt (g ! ?s) (g ! (?s - 1)) then ?s - 1 else ?s)"
    have c: "0 < c" "c < len" "(c - 1) div 2 = k" using s unfolding c_def by auto
    have kc: "k < c" "k \<noteq> c" using c child_lt [of c k] by simp_all
    have big: "\<forall>d. 0 < d \<and> d < len \<and> (d - 1) div 2 = k \<longrightarrow> f (g ! d) \<le> f (g ! c)"
    proof (intro allI impI)
      fix d assume "0 < d \<and> d < len \<and> (d - 1) div 2 = k"
      then have "d = ?s - 1 \<or> d = ?s" using parent_cases [of d k] by auto
      then show "f (g ! d) \<le> f (g ! c)"
        unfolding c_def using lt [of "g ! ?s" "g ! (?s - 1)"] by auto
    qed
    let ?g = "g[k := g ! c]"
    have inv': "hole_inv f t len ?g c" using inv c big by (rule hole_inv_descend)
    have dec: "len - c < len - k" using kc c by simp
    from less.hyps [OF dec inv']
    obtain g' k' where r: "adjust_heap_loop lt ?g c len = Some (g', k')"
      "hole_inv f t len g' k'" "length g' = length ?g" "mset (g'[k' := v]) = mset (?g[c := v])"
      "drop len g' = drop len ?g" "\<not> k' < (len - 1) div 2" by blast
    have step: "adjust_heap_loop lt g k len = adjust_heap_loop lt ?g c len"
      using True s len unfolding c_def by (subst adjust_heap_loop.simps) (simp add: Let_def)
    have m: "mset (?g[c := v]) = mset (g[k := v])"
      using kc k c len by (intro mset_hole_move) simp_all
    have d: "drop len ?g = drop len g" using k by simp
    from r m d show ?thesis unfolding step by simp
  qed
qed

lemma push_heap_spec:
  fixes f :: "'a \<Rightarrow> 'k::linorder"
  assumes lt: "\<And>a b. lt a b \<longleftrightarrow> f a < f b"
  shows "hole_inv f t len g k \<Longrightarrow>
     \<forall>c. 0 < c \<and> c < len \<and> (c - 1) div 2 = k \<longrightarrow> f (g ! c) \<le> f v \<Longrightarrow>
     \<exists>g'. push_heap lt g k t v = Some g' \<and> length g' = length g \<and> heap_from f t g' len \<and>
       mset g' = mset (g[k := v]) \<and> drop len g' = drop len g"
proof (induction k arbitrary: g rule: less_induct)
  case (less k)
  note inv = less.prems(1) and below = less.prems(2)
  from inv have len: "len \<le> length g" and k: "k < len" and sub: "in_subtree t k"
    and e: "\<And>i. 0 < i \<Longrightarrow> i < len \<Longrightarrow> t \<le> (i - 1) div 2 \<Longrightarrow> i \<noteq> k \<Longrightarrow> (i - 1) div 2 \<noteq> k
          \<Longrightarrow> f (g ! i) \<le> f (g ! ((i - 1) div 2))"
    and up: "\<And>d. k \<noteq> t \<Longrightarrow> 0 < d \<Longrightarrow> d < len \<Longrightarrow> (d - 1) div 2 = k
          \<Longrightarrow> f (g ! d) \<le> f (g ! ((k - 1) div 2))"
    unfolding hole_inv_def by auto
  have tk: "t \<le> k" using sub by (rule in_subtree_le)
  have kl: "k < length g" using k len by simp
  let ?p = "(k - 1) div 2"
  show ?case
  proof (cases "t < k \<and> f (g ! ?p) < f v")
    case True
    then have kt: "k \<noteq> t" and pk: "?p < k" and k0: "0 < k" by auto
    have subp: "in_subtree t ?p" using sub kt by (rule in_subtree_parent)
    have tp: "t \<le> ?p" using subp by (rule in_subtree_le)
    let ?g = "g[k := g ! ?p]"
    have pl: "?p < len" using pk k by simp
    have edge_p: "?p \<noteq> t \<Longrightarrow> f (g ! ?p) \<le> f (g ! ((?p - 1) div 2))"
    proof -
      assume pt: "?p \<noteq> t"
      with tp have "0 < ?p" by simp
      moreover have "t \<le> (?p - 1) div 2"
        using in_subtree_le [OF in_subtree_parent [OF subp pt]] .
      moreover have "?p \<noteq> k" "(?p - 1) div 2 \<noteq> k" using pk by simp_all
      ultimately show ?thesis using e [of ?p] pl by simp
    qed
    have e': "\<forall>i. 0 < i \<and> i < len \<and> t \<le> (i - 1) div 2 \<and> i \<noteq> ?p \<and> (i - 1) div 2 \<noteq> ?p
          \<longrightarrow> f (?g ! i) \<le> f (?g ! ((i - 1) div 2))"
    proof (intro allI impI)
      fix i assume i: "0 < i \<and> i < len \<and> t \<le> (i - 1) div 2 \<and> i \<noteq> ?p \<and> (i - 1) div 2 \<noteq> ?p"
      then have ik: "i \<noteq> k" by auto
      show "f (?g ! i) \<le> f (?g ! ((i - 1) div 2))"
      proof (cases "(i - 1) div 2 = k")
        case True
        with up [OF kt, of i] i ik kl show ?thesis by simp
      next
        case False
        with e [of i] i ik show ?thesis by simp
      qed
    qed
    have up': "?p \<noteq> t \<longrightarrow> (\<forall>c. 0 < c \<and> c < len \<and> (c - 1) div 2 = ?p
          \<longrightarrow> f (?g ! c) \<le> f (?g ! ((?p - 1) div 2)))"
    proof (intro allI impI)
      fix c assume pt: "?p \<noteq> t" and c: "0 < c \<and> c < len \<and> (c - 1) div 2 = ?p"
      have ppk: "(?p - 1) div 2 \<noteq> k" using pk by linarith
      show "f (?g ! c) \<le> f (?g ! ((?p - 1) div 2))"
      proof (cases "c = k")
        case True
        with edge_p [OF pt] ppk kl show ?thesis by simp
      next
        case False
        moreover from c pk have "(c - 1) div 2 \<noteq> k" by simp
        ultimately have "f (g ! c) \<le> f (g ! ?p)" using e [of c] c tp by simp
        with edge_p [OF pt] have "f (g ! c) \<le> f (g ! ((?p - 1) div 2))" by (rule order_trans [rotated])
        with False ppk show ?thesis by simp
      qed
    qed
    have inv': "hole_inv f t len ?g ?p"
      unfolding hole_inv_def using len pl subp e' up' by simp
    have below': "\<forall>c. 0 < c \<and> c < len \<and> (c - 1) div 2 = ?p \<longrightarrow> f (?g ! c) \<le> f v"
    proof (intro allI impI)
      fix c assume c: "0 < c \<and> c < len \<and> (c - 1) div 2 = ?p"
      show "f (?g ! c) \<le> f v"
      proof (cases "c = k")
        case True
        moreover from \<open>t < k \<and> f (g ! ?p) < f v\<close> have "f (g ! ?p) \<le> f v" by auto
        ultimately show ?thesis using kl by simp
      next
        case False
        moreover from c pk have "(c - 1) div 2 \<noteq> k" by simp
        ultimately have "f (g ! c) \<le> f (g ! ?p)" using e [of c] c tp by simp
        moreover from True have "f (g ! ?p) \<le> f v" by auto
        ultimately have "f (g ! c) \<le> f v" by (rule order_trans)
        with False show ?thesis by simp
      qed
    qed
    from less.IH [OF pk inv' below']
    obtain g' where r: "push_heap lt ?g ?p t v = Some g'" "length g' = length ?g"
      "heap_from f t g' len" "mset g' = mset (?g[?p := v])" "drop len g' = drop len ?g"
      by blast
    have step: "push_heap lt g k t v = push_heap lt ?g ?p t v"
      using True kl lt [of "g ! ?p" v] by (subst push_heap.simps) simp
    have m: "mset (?g[?p := v]) = mset (g[k := v])"
      using pk kl by (intro mset_hole_move) simp_all
    have d: "drop len ?g = drop len g" using k by simp
    from r m d show ?thesis unfolding step by simp
  next
    case False
    have r: "push_heap lt g k t v = Some (g[k := v])"
      using False kl lt [of "g ! ?p" v] by (subst push_heap.simps) auto
    have h: "heap_from f t (g[k := v]) len"
      unfolding heap_from_def
    proof (intro allI impI)
      fix i assume i: "0 < i \<and> i < len \<and> t \<le> (i - 1) div 2"
      consider (self) "i = k" | (child) "i \<noteq> k" "(i - 1) div 2 = k"
        | (other) "i \<noteq> k" "(i - 1) div 2 \<noteq> k" by blast
      then show "f (g[k := v] ! i) \<le> f (g[k := v] ! ((i - 1) div 2))"
      proof cases
        case self
        with i have "t < k" "?p \<noteq> k" by auto
        with False have "f v \<le> f (g ! ?p)" by auto
        with self kl \<open>?p \<noteq> k\<close> show ?thesis by simp
      next
        case child
        with below i kl show ?thesis by simp
      next
        case other
        with e [of i] i show ?thesis by simp
      qed
    qed
    have d: "drop len (g[k := v]) = drop len g" using k by simp
    from r h d show ?thesis by simp
  qed
qed

lemma adjust_heap_spec:
  fixes f :: "'a \<Rightarrow> 'k::linorder"
  assumes lt: "\<And>a b. lt a b \<longleftrightarrow> f a < f b"
    and t: "t < len" and len: "len \<le> length h" and hp: "heap_from f (Suc t) h len"
  shows "\<exists>h'. adjust_heap lt h t len v = Some h' \<and> length h' = length h \<and>
           heap_from f t h' len \<and> mset h' = mset (h[t := v]) \<and> drop len h' = drop len h"
proof -
  have inv0: "hole_inv f t len h t"
    unfolding hole_inv_def using t len hp in_subtree_refl [of t]
    by (auto simp add: heap_from_def)
  from adjust_heap_loop_spec [where lt = lt and f = f and v = v, OF lt inv0]
  obtain g k where l: "adjust_heap_loop lt h t len = Some (g, k)" "hole_inv f t len g k"
    "length g = length h" "mset (g[k := v]) = mset (h[t := v])" "drop len g = drop len h"
    "\<not> k < (len - 1) div 2" by blast
  from l(2) have k: "k < len" and gl: "len \<le> length g" unfolding hole_inv_def by simp_all
  show ?thesis
  proof (cases "even len \<and> k = (len - 2) div 2")
    case True
    let ?c = "2 * (k + 1) - 1"
    from True k have len2: "len = 2 * k + 2" by (intro even_special) simp_all
    then have c: "0 < ?c" "?c < len" "(?c - 1) div 2 = k" "?c = len - 1" by simp_all
    have kc: "k \<noteq> ?c" by simp
    have big: "\<forall>d. 0 < d \<and> d < len \<and> (d - 1) div 2 = k \<longrightarrow> f (g ! d) \<le> f (g ! ?c)"
    proof (intro allI impI)
      fix d assume d: "0 < d \<and> d < len \<and> (d - 1) div 2 = k"
      with len2 parent_cases [of d k] have "d = ?c" by auto
      then show "f (g ! d) \<le> f (g ! ?c)" by simp
    qed
    let ?g = "g[k := g ! ?c]"
    have inv': "hole_inv f t len ?g ?c" using l(2) c(1,2,3) big by (rule hole_inv_descend)
    have leaf: "\<forall>d. 0 < d \<and> d < len \<and> (d - 1) div 2 = ?c \<longrightarrow> f (?g ! d) \<le> f v"
    proof (intro allI impI)
      fix d assume d: "0 < d \<and> d < len \<and> (d - 1) div 2 = ?c"
      with parent_cases [of d ?c] len2 have False by auto
      then show "f (?g ! d) \<le> f v" ..
    qed
    from push_heap_spec [where lt = lt and f = f, OF lt inv' leaf]
    obtain h' where r: "push_heap lt ?g ?c t v = Some h'" "length h' = length ?g"
      "heap_from f t h' len" "mset h' = mset (?g[?c := v])" "drop len h' = drop len ?g"
      by blast
    have res: "adjust_heap lt h t len v = Some h'"
      proof -
      from len2 have "2 \<le> len" by simp
      with l(1) True r(1) c(2) gl show ?thesis by (simp add: adjust_heap_def)
    qed
    have m: "mset (?g[?c := v]) = mset (g[k := v])"
      using kc k c(2) gl by (intro mset_hole_move) simp_all
    have d: "drop len ?g = drop len g" using k by simp
    from res r l(3,4,5) m d show ?thesis by simp
  next
    case False
    have leaf: "\<forall>d. 0 < d \<and> d < len \<and> (d - 1) div 2 = k \<longrightarrow> f (g ! d) \<le> f v"
    proof (intro allI impI)
      fix d assume d: "0 < d \<and> d < len \<and> (d - 1) div 2 = k"
      with parent_cases [of d k] have "2 * k + 1 < len" by auto
      with False l(6) have False by (intro leaf_no_child [of k len]) simp_all
      then show "f (g ! d) \<le> f v" ..
    qed
    from push_heap_spec [where lt = lt and f = f, OF lt l(2) leaf]
    obtain h' where r: "push_heap lt g k t v = Some h'" "length h' = length g"
      "heap_from f t h' len" "mset h' = mset (g[k := v])" "drop len h' = drop len g"
      by blast
    have res: "adjust_heap lt h t len v = Some h'"
      using l(1) False r(1) by (auto simp add: adjust_heap_def)
    from res r l(3,4,5) show ?thesis by simp
  qed
qed

lemma heap_root_max:
  fixes f :: "'a \<Rightarrow> 'k::linorder"
  shows "heap_from f 0 h len \<Longrightarrow> i < len \<Longrightarrow> f (h ! i) \<le> f (h ! 0)"
proof (induction i rule: less_induct)
  case (less i)
  show ?case
  proof (cases "i = 0")
    case True
    then show ?thesis by simp
  next
    case False
    then have p: "(i - 1) div 2 < i" by (simp add: parent_lt)
    from less.prems False have "f (h ! i) \<le> f (h ! ((i - 1) div 2))"
      unfolding heap_from_def by simp
    moreover from less.IH [OF p less.prems(1)] p less.prems(2)
    have "f (h ! ((i - 1) div 2)) \<le> f (h ! 0)" by simp
    ultimately show ?thesis by (rule order_trans)
  qed
qed

lemma make_heap_loop_spec:
  fixes f :: "'a \<Rightarrow> 'k::linorder"
  assumes lt: "\<And>a b. lt a b \<longleftrightarrow> f a < f b"
  shows "p < len \<Longrightarrow> len \<le> length h \<Longrightarrow> heap_from f (Suc p) h len \<Longrightarrow>
     \<exists>h'. make_heap_loop lt h p len = Some h' \<and> length h' = length h \<and>
       heap_from f 0 h' len \<and> mset h' = mset h \<and> drop len h' = drop len h"
proof (induction p arbitrary: h)
  case 0
  from adjust_heap_spec [where lt = lt and f = f and v = "h ! 0", OF lt 0]
  obtain h' where r: "adjust_heap lt h 0 len (h ! 0) = Some h'" "length h' = length h"
    "heap_from f 0 h' len" "mset h' = mset (h[0 := h ! 0])" "drop len h' = drop len h"
    by blast
  have "make_heap_loop lt h 0 len = Some h'"
    using r(1) 0 by (subst make_heap_loop.simps) auto
  with r show ?case by simp
next
  case (Suc p)
  from adjust_heap_spec [where lt = lt and f = f and v = "h ! Suc p", OF lt Suc.prems]
  obtain h1 where r: "adjust_heap lt h (Suc p) len (h ! Suc p) = Some h1"
    "length h1 = length h" "heap_from f (Suc p) h1 len"
    "mset h1 = mset (h[Suc p := h ! Suc p])" "drop len h1 = drop len h"
    by blast
  from Suc.prems r(2) have b: "p < len" "len \<le> length h1" by simp_all
  from Suc.IH [OF b r(3)]
  obtain h' where r': "make_heap_loop lt h1 p len = Some h'" "length h' = length h1"
    "heap_from f 0 h' len" "mset h' = mset h1" "drop len h' = drop len h1"
    by blast
  have "make_heap_loop lt h (Suc p) len = Some h'"
    using r(1) r'(1) Suc.prems by (subst make_heap_loop.simps) simp
  with r r' show ?case by simp
qed

lemma make_heap_spec:
  fixes f :: "'a \<Rightarrow> 'k::linorder"
  assumes lt: "\<And>a b. lt a b \<longleftrightarrow> f a < f b" and len: "len \<le> length h"
  shows "\<exists>h'. make_heap lt h len = Some h' \<and> length h' = length h \<and>
       heap_from f 0 h' len \<and> mset h' = mset h \<and> drop len h' = drop len h"
proof (cases "len < 2")
  case True
  then have "heap_from f 0 h len" unfolding heap_from_def by auto
  with True show ?thesis by (simp add: make_heap_def)
next
  case False
  then have p: "(len - 2) div 2 < len" by simp
  have "\<And>i. \<not> (0 < i \<and> i < len \<and> Suc ((len - 2) div 2) \<le> (i - 1) div 2)"
  proof
    fix i assume i: "0 < i \<and> i < len \<and> Suc ((len - 2) div 2) \<le> (i - 1) div 2"
    define k where "k = (i - 1) div 2"
    define m where "m = (len - 2) div 2"
    from i parent_cases [of i k] have "2 * k + 1 \<le> i" unfolding k_def by auto
    moreover from i have "Suc m \<le> k" unfolding k_def m_def by simp
    moreover have "len - 2 \<le> 2 * m + 1" unfolding m_def by (rule half_bound)
    ultimately show False using i False by arith
  qed
  then have "heap_from f (Suc ((len - 2) div 2)) h len"
    unfolding heap_from_def by blast
  from make_heap_loop_spec [where lt = lt and f = f, OF lt p len this] False
  show ?thesis by (simp add: make_heap_def)
qed

lemma heap_from_prefix:
  fixes f :: "'a \<Rightarrow> 'k::linorder"
  assumes "heap_from f 0 h m" and "\<forall>i<n. g ! i = h ! i" and "n \<le> m"
  shows "heap_from f (Suc 0) g n"
  unfolding heap_from_def
proof (intro allI impI)
  fix i assume i: "0 < i \<and> i < n \<and> Suc 0 \<le> (i - 1) div 2"
  with parent_lt [of i] have "(i - 1) div 2 < n" by simp
  with i assms(2) have "g ! i = h ! i" "g ! ((i - 1) div 2) = h ! ((i - 1) div 2)" by simp_all
  moreover from i assms(1,3) have "f (h ! i) \<le> f (h ! ((i - 1) div 2))"
    unfolding heap_from_def by simp
  ultimately show "f (g ! i) \<le> f (g ! ((i - 1) div 2))" by simp
qed

lemma sort_heap_spec:
  fixes f :: "'a \<Rightarrow> 'k::linorder"
  assumes lt: "\<And>a b. lt a b \<longleftrightarrow> f a < f b"
  shows "m \<le> length h \<Longrightarrow> heap_from f 0 h m \<Longrightarrow> sorted (map f (drop m h)) \<Longrightarrow>
     \<forall>a\<in>set (take m h). \<forall>b\<in>set (drop m h). f a \<le> f b \<Longrightarrow>
     \<exists>h'. sort_heap lt h m = Some h' \<and> length h' = length h \<and> mset h' = mset h \<and>
       sorted (map f h')"
proof (induction m arbitrary: h)
  case 0
  then show ?case by (subst sort_heap.simps) simp
next
  case (Suc n)
  show ?case
  proof (cases "n = 0")
    case True
    have "sorted (map f h)"
      using True Suc.prems(3,4) by (cases h) auto
    with True show ?thesis by (subst sort_heap.simps) simp
  next
    case False
    then have n: "0 < n" "n < length h" "0 < length h" using Suc.prems(1) by auto
    let ?v = "h ! n"
    let ?h1 = "h[n := h ! 0]"
    have hp1: "heap_from f (Suc 0) ?h1 n"
      using Suc.prems(2) by (rule heap_from_prefix) simp_all
    have nl: "n \<le> length ?h1" using n by simp
    from adjust_heap_spec [where lt = lt and f = f and v = ?v, OF lt n(1) nl hp1]
    obtain h2 where r: "adjust_heap lt ?h1 0 n ?v = Some h2" "length h2 = length ?h1"
      "heap_from f 0 h2 n" "mset h2 = mset (?h1[0 := ?v])" "drop n h2 = drop n ?h1"
      by blast
    have pop: "pop_heap lt h n n = Some h2"
      using r(1) n by (auto simp add: pop_heap_def)
    have m2: "mset h2 = mset h"
      using r(4) n mset_swap [of 0 h n] by simp
    have d1: "drop n ?h1 = h ! 0 # drop (Suc n) h"
      using n by (simp add: drop_update_cancel Cons_nth_drop_Suc [symmetric] upd_conv_take_nth_drop)
    have d2: "drop n h2 = h ! 0 # drop (Suc n) h" using r(5) d1 by simp
    have root: "\<forall>a\<in>set (take (Suc n) h). f a \<le> f (h ! 0)"
    proof
      fix a assume "a \<in> set (take (Suc n) h)"
      then obtain i where "i < Suc n" "a = h ! i"
        using n by (auto simp add: in_set_conv_nth)
      with heap_root_max [OF Suc.prems(2)] show "f a \<le> f (h ! 0)" by simp
    qed
    have h0: "h ! 0 \<in> set (take (Suc n) h)"
      using n(3) by (cases h) simp_all
    have s2: "sorted (map f (drop n h2))"
      using d2 Suc.prems(3,4) h0 by simp
    have sub: "set (take n h2) \<subseteq> set (take (Suc n) h)"
    proof -
      have "mset (take n h2) + mset (drop n h2) = mset (take (Suc n) h) + mset (drop (Suc n) h)"
        using m2 by (metis append_take_drop_id mset_append)
      then have "mset (take n h2) + {#h ! 0#} = mset (take (Suc n) h)"
        unfolding d2 by simp
      moreover have "mset (take n h2) \<subseteq># mset (take n h2) + {#h ! 0#}" by simp
      ultimately have "mset (take n h2) \<subseteq># mset (take (Suc n) h)" by simp
      then have "set_mset (mset (take n h2)) \<subseteq> set_mset (mset (take (Suc n) h))"
        by (rule set_mset_mono)
      then show ?thesis by simp
    qed
    have sep2: "\<forall>a\<in>set (take n h2). \<forall>b\<in>set (drop n h2). f a \<le> f b"
      using sub root Suc.prems(4) unfolding d2 by auto
    have l2: "n \<le> length h2" using r(2) n by simp
    from Suc.IH [OF l2 r(3) s2 sep2]
    obtain h' where r': "sort_heap lt h2 n = Some h'" "length h' = length h2"
      "mset h' = mset h2" "sorted (map f h')" by blast
    have "sort_heap lt h (Suc n) = Some h'"
      using pop r'(1) n by (subst sort_heap.simps) simp
    with r' r(2) m2 show ?thesis by simp
  qed
qed

lemma partial_sort_spec:
  fixes f :: "'a \<Rightarrow> 'k::linorder"
  assumes lt: "\<And>a b. lt a b \<longleftrightarrow> f a < f b" and b: "fi \<le> la" "la \<le> length xs"
  shows "\<exists>ys. partial_sort lt xs fi la la = Some ys \<and> length ys = length xs \<and>
           mset ys = mset xs \<and> take fi ys = take fi xs \<and> drop la ys = drop la xs \<and>
           sorted (map f (take (la - fi) (drop fi ys)))"
proof -
  let ?h = "take (la - fi) (drop fi xs)"
  have hl: "length ?h = la - fi" using b by simp
  have hl': "la - fi \<le> length ?h" using hl by simp
  from make_heap_spec [where lt = lt and f = f and len = "la - fi" and h = ?h, OF lt hl']
  obtain h1 where r1: "make_heap lt ?h (la - fi) = Some h1" "length h1 = length ?h"
    "heap_from f 0 h1 (la - fi)" "mset h1 = mset ?h" by blast
  have sel: "heap_select lt ?h (la - fi) (la - fi) = Some h1"
    using r1(1) by (simp add: heap_select_def) (subst heap_select_loop.simps, simp)
  have l1: "la - fi \<le> length h1" using r1(2) hl by simp
  have e1: "sorted (map f (drop (la - fi) h1))" using r1(2) hl by simp
  have e2: "\<forall>a\<in>set (take (la - fi) h1). \<forall>b\<in>set (drop (la - fi) h1). f a \<le> f b"
    using r1(2) hl by simp
  from sort_heap_spec [where lt = lt and f = f, OF lt l1 r1(3) e1 e2]
  obtain h2 where r2: "sort_heap lt h1 (la - fi) = Some h2" "length h2 = length h1"
    "mset h2 = mset h1" "sorted (map f h2)" by blast
  let ?ys = "take fi xs @ h2 @ drop la xs"
  have res: "partial_sort lt xs fi la la = Some ?ys"
    using b sel r2(1) by (simp add: partial_sort_def)
  have "drop (la - fi) (drop fi xs) = drop la xs" using b by simp
  then have "drop fi xs = ?h @ drop la xs"
    using append_take_drop_id [of "la - fi" "drop fi xs"] by simp
  then have xs: "xs = take fi xs @ ?h @ drop la xs"
    using append_take_drop_id [of fi xs] by simp
  have l2: "length h2 = la - fi" using r2(2) r1(2) hl by simp
  have lf: "length (take fi xs) = fi" using b by simp
  have len: "length ?ys = length xs" using b l2 by simp
  have m: "mset ?ys = mset xs"
    by (subst (3) xs) (simp add: r2(3) r1(4))
  have t: "take fi ?ys = take fi xs" using lf by simp
  have d: "drop la ?ys = drop la xs" using lf l2 b by simp
  have "take (la - fi) (drop fi ?ys) = h2" using lf l2 by simp
  with r2(4) have s: "sorted (map f (take (la - fi) (drop fi ?ys)))" by simp
  from res len m t d s show ?thesis by blast
qed

subsection \<open>The library's sort: introsort\<close>

text \<open>
  The introsort loop returns for every depth limit, permutes the range and nothing
  else, and leaves a least element of the range among its first 16 positions. With
  that the final insertion sort stays in the range and sorts it.
\<close>

lemma segment_min:
  fixes g :: "nat \<Rightarrow> 'k::linorder"
  assumes "fi < la"
  shows "\<exists>j. fi \<le> j \<and> j < la \<and> (\<forall>i. fi \<le> i \<and> i < la \<longrightarrow> g j \<le> g i)"
proof -
  let ?S = "g ` {fi..<la}"
  have fin: "finite ?S" and ne: "?S \<noteq> {}" using assms by simp_all
  from Min_in [OF fin ne] obtain j where j: "j \<in> {fi..<la}" "g j = Min ?S" by auto
  have "\<forall>i. fi \<le> i \<and> i < la \<longrightarrow> g j \<le> g i"
    using Min_le [OF fin] j(2) by simp
  with j(1) show ?thesis by auto
qed

lemma frame_take_drop:
  assumes "length ys = length xs" and "\<forall>k. (k < a \<or> b \<le> k) \<and> k < length xs \<longrightarrow> ys ! k = xs ! k"
  shows "take a ys = take a xs" and "drop b ys = drop b xs"
  using assms by (auto intro!: nth_equalityI)

lemma segment_mset:
  assumes l: "length ys = length xs" and m: "mset ys = mset xs"
    and fr: "\<forall>k. (k < a \<or> b \<le> k) \<and> k < length xs \<longrightarrow> ys ! k = xs ! k" and ab: "a \<le> b"
  shows "mset (take (b - a) (drop a ys)) = mset (take (b - a) (drop a xs))"
proof -
  have dec: "\<And>zs::'a list. zs = take a zs @ take (b - a) (drop a zs) @ drop b zs"
  proof -
    fix zs :: "'a list"
    have "drop (b - a) (drop a zs) = drop b zs" using ab by simp
    then have "drop a zs = take (b - a) (drop a zs) @ drop b zs"
      using append_take_drop_id [of "b - a" "drop a zs"] by simp
    then show "zs = take a zs @ take (b - a) (drop a zs) @ drop b zs"
      using append_take_drop_id [of a zs] by simp
  qed
  have "mset ys = mset (take a ys) + mset (take (b - a) (drop a ys)) + mset (drop b ys)"
    by (subst dec [of ys]) simp
  moreover have "mset xs = mset (take a xs) + mset (take (b - a) (drop a xs)) + mset (drop b xs)"
    by (subst dec [of xs]) simp
  ultimately show ?thesis
    using m frame_take_drop [OF l fr] by simp
qed

lemma segment_set:
  assumes "b \<le> length xs"
  shows "set (take (b - a) (drop a xs)) = {xs ! k | k. a \<le> k \<and> k < b}"
proof (intro equalityI subsetI)
  fix x assume "x \<in> set (take (b - a) (drop a xs))"
  then obtain i where i: "i < b - a" "i < length xs - a" "x = take (b - a) (drop a xs) ! i"
    by (auto simp add: in_set_conv_nth)
  then have "x = xs ! (a + i)" by simp
  with i show "x \<in> {xs ! k | k. a \<le> k \<and> k < b}" by (intro CollectI exI [of _ "a + i"]) auto
next
  fix x assume "x \<in> {xs ! k | k. a \<le> k \<and> k < b}"
  then obtain k where k: "a \<le> k" "k < b" "x = xs ! k" by blast
  with assms have "k - a < length (take (b - a) (drop a xs))"
    "take (b - a) (drop a xs) ! (k - a) = x" by auto
  then show "x \<in> set (take (b - a) (drop a xs))" by (metis nth_mem)
qed

lemma segment_perm_nth:
  assumes l: "length ys = length xs" and m: "mset ys = mset xs"
    and fr: "\<forall>k. (k < a \<or> b \<le> k) \<and> k < length xs \<longrightarrow> ys ! k = xs ! k" and ab: "a \<le> b" and b: "b \<le> length xs"
    and k: "a \<le> k" "k < b"
  shows "\<exists>k'. a \<le> k' \<and> k' < b \<and> ys ! k = xs ! k'"
proof -
  have "set (take (b - a) (drop a ys)) = set (take (b - a) (drop a xs))"
    using segment_mset [OF l m fr ab] by (rule mset_eq_setD)
  moreover have "ys ! k \<in> set (take (b - a) (drop a ys))"
    using segment_set [of b ys a] b l k by auto
  ultimately have "ys ! k \<in> {xs ! k | k. a \<le> k \<and> k < b}"
    using segment_set [OF b, of a] by simp
  then show ?thesis by blast
qed

lemma introsort_loop_spec:
  fixes f :: "'a \<Rightarrow> 'k::linorder"
  assumes lt: "\<And>a b. lt a b \<longleftrightarrow> f a < f b"
  shows "fi \<le> la \<Longrightarrow> la \<le> length xs \<Longrightarrow>
     \<exists>ys. introsort_loop lt xs fi la d = Some ys \<and> length ys = length xs \<and>
       mset ys = mset xs \<and> (\<forall>k. (k < fi \<or> la \<le> k) \<and> k < length xs \<longrightarrow> ys ! k = xs ! k) \<and>
       (fi < la \<longrightarrow> (\<exists>j. fi \<le> j \<and> j < la \<and> j < fi + 16 \<and>
                       (\<forall>i. fi \<le> i \<and> i < la \<longrightarrow> f (ys ! j) \<le> f (ys ! i))))"
proof (induction d arbitrary: xs fi la)
  case 0
  show ?case
  proof (cases "la - fi > 16")
    case False
    have r: "introsort_loop lt xs fi la 0 = Some xs"
      using False by (subst introsort_loop.simps) (simp add: S_threshold_def)
    have "fi < la \<longrightarrow> (\<exists>j. fi \<le> j \<and> j < la \<and> j < fi + 16 \<and>
                       (\<forall>i. fi \<le> i \<and> i < la \<longrightarrow> f (xs ! j) \<le> f (xs ! i)))"
    proof
      assume "fi < la"
      from segment_min [OF this, of "\<lambda>i. f (xs ! i)"] obtain j where
        "fi \<le> j" "j < la" "\<forall>i. fi \<le> i \<and> i < la \<longrightarrow> f (xs ! j) \<le> f (xs ! i)" by blast
      moreover from this False have "j < fi + 16" by simp
      ultimately show "\<exists>j. fi \<le> j \<and> j < la \<and> j < fi + 16 \<and>
                       (\<forall>i. fi \<le> i \<and> i < la \<longrightarrow> f (xs ! j) \<le> f (xs ! i))" by blast
    qed
    with r show ?thesis by simp
  next
    case True
    from partial_sort_spec [where lt = lt and f = f, OF lt 0]
    obtain ys where ys: "partial_sort lt xs fi la la = Some ys" "length ys = length xs"
      "mset ys = mset xs" "take fi ys = take fi xs" "drop la ys = drop la xs"
      "sorted (map f (take (la - fi) (drop fi ys)))" by blast
    have r: "introsort_loop lt xs fi la 0 = Some ys"
      using True ys(1) by (subst introsort_loop.simps) (simp add: S_threshold_def)
    have fr: "\<forall>k. (k < fi \<or> la \<le> k) \<and> k < length xs \<longrightarrow> ys ! k = xs ! k"
    proof (intro allI impI)
      fix k assume k: "(k < fi \<or> la \<le> k) \<and> k < length xs"
      show "ys ! k = xs ! k"
      proof (cases "k < fi")
        case True
        then have "take fi ys ! k = ys ! k" "take fi xs ! k = xs ! k" by simp_all
        with ys(4) show ?thesis by simp
      next
        case False
        with k ys(2) have "drop la ys ! (k - la) = ys ! k" "drop la xs ! (k - la) = xs ! k"
          by simp_all
        with ys(5) show ?thesis by simp
      qed
    qed
    have front: "fi < la \<longrightarrow> (\<exists>j. fi \<le> j \<and> j < la \<and> j < fi + 16 \<and>
                       (\<forall>i. fi \<le> i \<and> i < la \<longrightarrow> f (ys ! j) \<le> f (ys ! i)))"
    proof
      assume fl: "fi < la"
      let ?seg = "take (la - fi) (drop fi ys)"
      have sl: "length ?seg = la - fi" using 0 ys(2) by simp
      have "\<forall>i. fi \<le> i \<and> i < la \<longrightarrow> f (ys ! fi) \<le> f (ys ! i)"
      proof (intro allI impI)
        fix i assume i: "fi \<le> i \<and> i < la"
        then have "i - fi < la - fi" by arith
        then have "i - fi < length (map f ?seg)" using sl by simp
        with ys(6) have "map f ?seg ! 0 \<le> map f ?seg ! (i - fi)"
          by (intro sorted_nth_mono) simp_all
        moreover have "?seg ! 0 = ys ! fi" using fl 0 ys(2) by simp
        then have "map f ?seg ! 0 = f (ys ! fi)" using fl sl by (simp del: nth_take nth_drop)
        moreover have "i - fi < la - fi" "fi + (i - fi) = i" using i by arith+
        then have "?seg ! (i - fi) = ys ! i" using 0 ys(2) by simp
        then have "map f ?seg ! (i - fi) = f (ys ! i)"
          using \<open>i - fi < la - fi\<close> sl by (simp del: nth_take nth_drop)
        ultimately show "f (ys ! fi) \<le> f (ys ! i)" by simp
      qed
      with fl show "\<exists>j. fi \<le> j \<and> j < la \<and> j < fi + 16 \<and>
                       (\<forall>i. fi \<le> i \<and> i < la \<longrightarrow> f (ys ! j) \<le> f (ys ! i))"
        by (intro exI [of _ fi]) simp
    qed
    from r ys(2,3) fr front show ?thesis by blast
  qed
next
  case (Suc d)
  show ?case
  proof (cases "la - fi > 16")
    case False
    have r: "introsort_loop lt xs fi la (Suc d) = Some xs"
      using False by (subst introsort_loop.simps) (simp add: S_threshold_def)
    have "fi < la \<longrightarrow> (\<exists>j. fi \<le> j \<and> j < la \<and> j < fi + 16 \<and>
                       (\<forall>i. fi \<le> i \<and> i < la \<longrightarrow> f (xs ! j) \<le> f (xs ! i)))"
    proof
      assume "fi < la"
      from segment_min [OF this, of "\<lambda>i. f (xs ! i)"] obtain j where
        "fi \<le> j" "j < la" "\<forall>i. fi \<le> i \<and> i < la \<longrightarrow> f (xs ! j) \<le> f (xs ! i)" by blast
      moreover from this False have "j < fi + 16" by simp
      ultimately show "\<exists>j. fi \<le> j \<and> j < la \<and> j < fi + 16 \<and>
                       (\<forall>i. fi \<le> i \<and> i < la \<longrightarrow> f (xs ! j) \<le> f (xs ! i))" by blast
    qed
    with r show ?thesis by simp
  next
    case True
    then have big: "fi + 16 < la" by simp
    from unguarded_partition_pivot_spec [where lt = lt and f = f, OF lt big Suc.prems(2)]
    obtain ys1 c where p: "unguarded_partition_pivot lt xs fi la = Some (ys1, c)"
      "length ys1 = length xs" "mset ys1 = mset xs"
      "\<forall>k. k < fi \<or> la \<le> k \<longrightarrow> ys1 ! k = xs ! k" "fi < c" "c \<le> la"
      "\<forall>i k. fi \<le> i \<and> i < c \<and> c \<le> k \<and> k < la \<longrightarrow> f (ys1 ! i) \<le> f (ys1 ! k)"
      by blast
    have l1: "la \<le> length ys1" using p(2) Suc.prems(2) by simp
    from Suc.IH [OF p(6) l1]
    obtain ys2 where q: "introsort_loop lt ys1 c la d = Some ys2" "length ys2 = length ys1"
      "mset ys2 = mset ys1"
      "\<forall>k. (k < c \<or> la \<le> k) \<and> k < length ys1 \<longrightarrow> ys2 ! k = ys1 ! k"
      by blast
    have sep2: "\<forall>i k. fi \<le> i \<and> i < c \<and> c \<le> k \<and> k < la \<longrightarrow> f (ys2 ! i) \<le> f (ys2 ! k)"
    proof (intro allI impI)
      fix i k assume a: "fi \<le> i \<and> i < c \<and> c \<le> k \<and> k < la"
      with segment_perm_nth [OF q(2,3,4) p(6) l1, of k]
      obtain k' where k': "c \<le> k'" "k' < la" "ys2 ! k = ys1 ! k'" by blast
      from a l1 q(4) have "ys2 ! i = ys1 ! i" by simp
      moreover from a k' p(7) have "f (ys1 ! i) \<le> f (ys1 ! k')" by blast
      ultimately show "f (ys2 ! i) \<le> f (ys2 ! k)" using k'(3) by simp
    qed
    have fc: "fi \<le> c" using p(5) by simp
    have l2: "c \<le> length ys2" using q(2) l1 p(6) by simp
    from Suc.IH [OF fc l2] p(5)
    obtain ys3 j where t: "introsort_loop lt ys2 fi c d = Some ys3" "length ys3 = length ys2"
      "mset ys3 = mset ys2"
      "\<forall>k. (k < fi \<or> c \<le> k) \<and> k < length ys2 \<longrightarrow> ys3 ! k = ys2 ! k"
      "fi \<le> j" "j < c" "j < fi + 16" "\<forall>i. fi \<le> i \<and> i < c \<longrightarrow> f (ys3 ! j) \<le> f (ys3 ! i)"
      by blast
    have r: "introsort_loop lt xs fi la (Suc d) = Some ys3"
      using True p(1) q(1) t(1) by (subst introsort_loop.simps) (simp add: S_threshold_def)
    have fr: "\<forall>k. (k < fi \<or> la \<le> k) \<and> k < length xs \<longrightarrow> ys3 ! k = xs ! k"
    proof (intro allI impI)
      fix k assume k: "(k < fi \<or> la \<le> k) \<and> k < length xs"
      with p(5,6) have k2: "(k < fi \<or> c \<le> k) \<and> k < length ys2" "(k < c \<or> la \<le> k) \<and> k < length ys1"
        using q(2) p(2) by auto
      from k2(1) t(4) have "ys3 ! k = ys2 ! k" by blast
      moreover from k2(2) q(4) have "ys2 ! k = ys1 ! k" by blast
      moreover from k p(4) have "ys1 ! k = xs ! k" by blast
      ultimately show "ys3 ! k = xs ! k" by simp
    qed
    have min: "\<forall>i. fi \<le> i \<and> i < la \<longrightarrow> f (ys3 ! j) \<le> f (ys3 ! i)"
    proof (intro allI impI)
      fix i assume i: "fi \<le> i \<and> i < la"
      show "f (ys3 ! j) \<le> f (ys3 ! i)"
      proof (cases "i < c")
        case True
        with i t(8) show ?thesis by blast
      next
        case False
        with i l1 q(2) t(4) have e: "ys3 ! i = ys2 ! i" by simp
        from segment_perm_nth [OF t(2,3,4) fc l2 t(5,6)]
        obtain j' where j': "fi \<le> j'" "j' < c" "ys3 ! j = ys2 ! j'" by blast
        with sep2 False i have "f (ys2 ! j') \<le> f (ys2 ! i)" by simp
        with e j'(3) show ?thesis by simp
      qed
    qed
    have front: "\<exists>j. fi \<le> j \<and> j < la \<and> j < fi + 16 \<and>
                       (\<forall>i. fi \<le> i \<and> i < la \<longrightarrow> f (ys3 ! j) \<le> f (ys3 ! i))"
      using t(5,6,7) p(6) min by (intro exI [of _ j]) simp
    from r t(2,3) q(2,3) p(2,3) fr front show ?thesis by simp
  qed
qed


lemma std_sort_spec:
  fixes f :: "'a \<Rightarrow> 'k::linorder"
  assumes lt: "\<And>a b. lt a b \<longleftrightarrow> f a < f b"
  shows "\<exists>ys. std_sort lt xs = Some ys \<and> mset ys = mset xs \<and> sorted (map f ys)"
proof (cases "xs = []")
  case True
  then show ?thesis by (simp add: std_sort_def)
next
  case False
  then have n: "0 < length xs" by simp
  have b: "0 \<le> length xs" "length xs \<le> length xs" by simp_all
  from introsort_loop_spec [where lt = lt and f = f and d = "lg (length xs) * 2", OF lt b] n
  obtain ys j where ys: "introsort_loop lt xs 0 (length xs) (lg (length xs) * 2) = Some ys"
    "length ys = length xs" "mset ys = mset xs" "j < 16"
    "\<forall>i. i < length xs \<longrightarrow> f (ys ! j) \<le> f (ys ! i)" by auto
  have front: "16 < length ys \<Longrightarrow> \<exists>j<16. \<forall>x\<in>set ys. f (ys ! j) \<le> f x"
    using ys(2,4,5) by (intro exI [of _ j]) (auto simp add: in_set_conv_nth)
  from final_insertion_sort_spec [where lt = lt and f = f and xs = ys, OF lt front]
  obtain zs where zs: "final_insertion_sort lt ys 0 (length ys) = Some zs"
    "mset zs = mset ys" "sorted (map f zs)" by blast
  have "std_sort lt xs = Some zs"
    using False ys(1,2) zs(1) by (simp add: std_sort_def)
  with zs ys(3) show ?thesis by simp
qed

subsection \<open>Sorting a class\<close>

text \<open>
  C2, as the code has it: \<^verbatim>\<open>ClassRec::sort()\<close> returns, the library's sort never leaves
  the vector. Afterwards the glyph sequence is in ascending order by GID and is a
  permutation of the glyph records it held before, anchor info included; no other field
  of the class changes. Nothing is said of the order of two records with the same GID.
\<close>

theorem ClassRec_sort_ascending_permutation:
  "\<exists>c'. ClassRec_sort c = Inr c' \<and>
        sorted (map gid (glyphs c')) \<and> mset (glyphs c') = mset (glyphs c) \<and>
        c' = c\<lparr>glyphs := glyphs c'\<rparr>"
proof -
  have lt: "GlyphRec_less a b \<longleftrightarrow> gid a < gid b" for a b
    by (simp add: GlyphRec_less_def)
  from std_sort_spec [where lt = GlyphRec_less and f = gid and xs = "glyphs c", OF lt]
  obtain ys where "std_sort GlyphRec_less (glyphs c) = Some ys" "mset ys = mset (glyphs c)"
    "sorted (map gid ys)" by blast
  then show ?thesis by (simp add: ClassRec_sort_def)
qed

text \<open>The class of the glyphs 5, 3, 4 comes out as 3, 4, 5.\<close>

theorem ClassRec_sort_ascending_permutation_witness:
  "ClassRec_sort (ClassRec_of_gids [5, 3, 4]) = Inr (ClassRec_of_gids [3, 4, 5]) \<and>
   (\<exists>c'. ClassRec_sort (ClassRec_of_gids [5, 3, 4]) = Inr c' \<and>
         sorted (map gid (glyphs c')) \<and>
         mset (glyphs c') = mset (glyphs (ClassRec_of_gids [5, 3, 4])) \<and>
         c' = (ClassRec_of_gids [5, 3, 4])\<lparr>glyphs := glyphs c'\<rparr>)"
proof
  show "ClassRec_sort (ClassRec_of_gids [5, 3, 4]) = Inr (ClassRec_of_gids [3, 4, 5])"
    by code_simp
  show "\<exists>c'. ClassRec_sort (ClassRec_of_gids [5, 3, 4]) = Inr c' \<and>
         sorted (map gid (glyphs c')) \<and>
         mset (glyphs c') = mset (glyphs (ClassRec_of_gids [5, 3, 4])) \<and>
         c' = (ClassRec_of_gids [5, 3, 4])\<lparr>glyphs := glyphs c'\<rparr>"
    using ClassRec_sort_ascending_permutation [of "ClassRec_of_gids [5, 3, 4]"] .
qed

text \<open>
  The claim C2 as stated fails: the sort is not stable. Seventeen records with the GID 7
  and the anchor coordinates 0 to 16, in this order, are already in ascending order by
  GID, and a stable sort leaves them as they are (\<open>sort_key\<close> is the stable sort by a
  key). \<^verbatim>\<open>sort()\<close> returns them in the order 8, 16, 15, 14, 13, 12, 11, 10, 9, 0, 7, 6, 5,
  4, 3, 2, 1: the median-of-three step swaps the first record with the middle one and the
  partition then swaps the records pairwise from both ends; being equal, they all pass
  the final insertion sort unmoved. The record 8 ends before the record 0.
\<close>

theorem ClassRec_sort_stable_counterexample:
  "ClassRec_sort class_17_of_gid_7 =
     Inr (ClassRec_with
            (map glyph_7_at [8, 16, 15, 14, 13, 12, 11, 10, 9, 0, 7, 6, 5, 4, 3, 2, 1])) \<and>
   map gid (glyphs class_17_of_gid_7) = replicate 17 7 \<and>
   sort_key gid (glyphs class_17_of_gid_7) = glyphs class_17_of_gid_7 \<and>
   glyphs class_17_of_gid_7 ! 0 = glyph_7_at 0 \<and>
   glyph_7_at 8 \<noteq> glyph_7_at 0"
  by code_simp

subsection \<open>Anchors\<close>

lemma sint_eq_iff: "sint a = sint b \<longleftrightarrow> a = b"
  by (auto intro: signed_word_eqI)

lemma uint_eq_iff: "uint a = uint b \<longleftrightarrow> a = b"
  by (simp add: word_uint_eq_iff)

lemma less_int6_iff:
  "((a1::int), (a2::int), (a3::int), (a4::int), (a5::int), (a6::int))
     < (b1, b2, b3, b4, b5, b6) \<longleftrightarrow>
   (if a1 \<noteq> b1 then a1 < b1 else if a2 \<noteq> b2 then a2 < b2 else if a3 \<noteq> b3 then a3 < b3
    else if a4 \<noteq> b4 then a4 < b4 else if a5 \<noteq> b5 then a5 < b5 else a6 < b6)"
  by auto

lemma AnchorMarkInfo_less_key:
  "AnchorMarkInfo_less a b \<longleftrightarrow> AnchorMarkInfo_key a < AnchorMarkInfo_key b"
proof -
  have "AnchorMarkInfo_key a < AnchorMarkInfo_key b \<longleftrightarrow>
     (if componentIndex a \<noteq> componentIndex b
        then sint (componentIndex a) < sint (componentIndex b)
      else if markClassIndex a \<noteq> markClassIndex b
        then sint (markClassIndex a) < sint (markClassIndex b)
      else if format a \<noteq> format b
        then uint (format a) < uint (format b)
      else if anchor_x a \<noteq> anchor_x b
        then sint (anchor_x a) < sint (anchor_x b)
      else if anchor_y a \<noteq> anchor_y b
        then sint (anchor_y a) < sint (anchor_y b)
      else (if format a = 2 then uint (contourpoint a) else 0)
             < (if format b = 2 then uint (contourpoint b) else 0))"
    unfolding AnchorMarkInfo_key_def less_int6_iff sint_eq_iff uint_eq_iff ..
  also have "\<dots> \<longleftrightarrow> AnchorMarkInfo_less a b"
    unfolding AnchorMarkInfo_less_def word_less_def
    by (cases "format a = format b") (auto simp: uint_eq_iff)
  finally show ?thesis by simp
qed

lemma AnchorMarkInfo_eq_key:
  "AnchorMarkInfo_eq a b \<longleftrightarrow> AnchorMarkInfo_key a = AnchorMarkInfo_key b"
  unfolding AnchorMarkInfo_eq_def AnchorMarkInfo_key_def
  by (auto simp add: sint_eq_iff uint_eq_iff)

text \<open>
  C4, as the code has it: \<^verbatim>\<open>a == b\<close> holds exactly when format, x, y, markClassIndex and
  componentIndex match, and contourpoint too when the format is 2. The mark class name
  is not compared: changing it on either side never changes the result.
\<close>

theorem AnchorMarkInfo_eq_components:
  "(AnchorMarkInfo_eq a b \<longleftrightarrow>
      format a = format b \<and> anchor_x a = anchor_x b \<and> anchor_y a = anchor_y b \<and>
      markClassIndex a = markClassIndex b \<and> componentIndex a = componentIndex b \<and>
      (format a = 2 \<longrightarrow> contourpoint a = contourpoint b)) \<and>
   AnchorMarkInfo_eq (a\<lparr>anchorMarkClassName := n\<rparr>) (b\<lparr>anchorMarkClassName := m\<rparr>)
     = AnchorMarkInfo_eq a b"
  by (auto simp add: AnchorMarkInfo_eq_def)

theorem AnchorMarkInfo_eq_components_witness:
  "AnchorMarkInfo_eq anchor_top anchor_bottom \<and> \<not> AnchorMarkInfo_eq anchor_top anchor_neg"
  using AnchorMarkInfo_eq_components [of anchor_top anchor_bottom]
    AnchorMarkInfo_eq_components [of anchor_top anchor_neg]
  by (simp add: anchor_top_def anchor_bottom_def anchor_neg_def AnchorMarkInfo_init_def)

text \<open>
  The claim C4 as stated fails: two anchors of format 1 whose mark class names differ
  (and whose contour points differ, which format 1 ignores) are equal for \<^verbatim>\<open>operator==\<close>.
\<close>

theorem AnchorMarkInfo_eq_name_counterexample:
  "AnchorMarkInfo_eq anchor_top anchor_bottom \<and>
   anchorMarkClassName anchor_top \<noteq> anchorMarkClassName anchor_bottom"
  by (simp add: AnchorMarkInfo_eq_def anchor_top_def anchor_bottom_def
      AnchorMarkInfo_init_def)

text \<open>
  C5: \<^verbatim>\<open>AnchorMarkInfo::operator<\<close> is the lexicographic strict order on the key
  (componentIndex, markClassIndex, format, x, y, contourpoint for format 2 only), and for
  every two anchors exactly one of \<^verbatim>\<open>a < b\<close>, \<^verbatim>\<open>b < a\<close>, \<^verbatim>\<open>a == b\<close> holds.
\<close>

theorem AnchorMarkInfo_less_total_order:
  "(AnchorMarkInfo_less a b \<longleftrightarrow> AnchorMarkInfo_key a < AnchorMarkInfo_key b) \<and>
   (AnchorMarkInfo_less a b \<or> AnchorMarkInfo_less b a \<or> AnchorMarkInfo_eq a b) \<and>
   \<not> (AnchorMarkInfo_less a b \<and> AnchorMarkInfo_less b a) \<and>
   \<not> (AnchorMarkInfo_less a b \<and> AnchorMarkInfo_eq a b) \<and>
   \<not> (AnchorMarkInfo_less b a \<and> AnchorMarkInfo_eq a b)"
  unfolding AnchorMarkInfo_less_key AnchorMarkInfo_eq_key by auto

text \<open>An anchor with component index -1 comes before one with component index 0.\<close>

theorem AnchorMarkInfo_less_total_order_witness:
  "AnchorMarkInfo_less anchor_neg anchor_top \<and>
   \<not> AnchorMarkInfo_less anchor_top anchor_neg \<and>
   \<not> AnchorMarkInfo_eq anchor_neg anchor_top"
  using AnchorMarkInfo_less_total_order [of anchor_neg anchor_top]
  by (simp add: AnchorMarkInfo_key_def anchor_top_def anchor_neg_def AnchorMarkInfo_init_def)

subsection \<open>Labels\<close>

lemma ucast_Label_eq_LAB_UNDEF:
  "(ucast (L::16 word) :: 32 word) = 0xFFFF \<longleftrightarrow> L = 0xFFFF"
proof -
  have "uint (ucast L :: 32 word) = uint L"
    by (simp add: uint_up_ucast is_up)
  then show ?thesis
    by (simp add: word_uint_eq_iff)
qed

lemma ucast_Label_and_REF_LAB:
  "((ucast (L::16 word) :: 32 word) AND push_bit 15 1) \<noteq> 0 \<longleftrightarrow> bit L 15"
proof -
  have "(ucast L :: 32 word) AND 2 ^ 15 = 0 \<longleftrightarrow> \<not> bit (ucast L :: 32 word) 15"
    by (rule and_exp_eq_0_iff_not_bit)
  moreover have "bit (ucast L :: 32 word) 15 \<longleftrightarrow> bit L 15"
    by (simp add: bit_ucast_iff)
  ultimately show ?thesis by simp
qed

text \<open>
  C6, as the code has it: for every 16-bit label, \<^verbatim>\<open>IS_REF_LAB\<close> holds exactly when the
  high bit 0x8000 is set and the label is not \<^verbatim>\<open>LAB_UNDEF\<close> (0xFFFF).
\<close>

theorem IS_REF_LAB_iff: "IS_REF_LAB L \<longleftrightarrow> bit L 15 \<and> L \<noteq> 0xFFFF"
  unfolding IS_REF_LAB_def LAB_UNDEF_def REF_LAB_def
    ucast_Label_eq_LAB_UNDEF ucast_Label_and_REF_LAB
  by auto

text \<open>
  The claim C6 as stated fails at \<^verbatim>\<open>LAB_UNDEF\<close>: its high bit is set and it is not a
  reference label.
\<close>

theorem IS_REF_LAB_high_bit_counterexample:
  "bit (0xFFFF :: Label) 15 \<and> \<not> IS_REF_LAB 0xFFFF"
  by (simp add: IS_REF_LAB_def LAB_UNDEF_def)

subsection \<open>Tags\<close>

text \<open>
  C9: \<^verbatim>\<open>FeatCtx::addTag(a, t)\<close> returns false and leaves \<^verbatim>\<open>a\<close> unchanged when \<^verbatim>\<open>t\<close> is not
  in \<^verbatim>\<open>a\<close>, and returns true with \<^verbatim>\<open>a\<close> unchanged when \<^verbatim>\<open>t\<close> is in \<^verbatim>\<open>a\<close>; in no case does
  the set change, so no new tag is ever inserted.
\<close>

theorem addTag_never_inserts:
  "(t \<notin> a \<longrightarrow> addTag a t = (False, a)) \<and>
   (t \<in> a \<longrightarrow> addTag a t = (True, a)) \<and>
   snd (addTag a t) = a"
  by (auto simp add: addTag_def)

theorem addTag_never_inserts_witness:
  "addTag {1, 2} 3 = (False, {1, 2}) \<and> addTag {1, 2} 2 = (True, {1, 2})"
  using addTag_never_inserts [of 3 "{1, 2}"] addTag_never_inserts [of 2 "{1, 2}"]
  by simp

subsection \<open>Pattern accessors past the last class\<close>

text \<open>
  C10, as the code has it: for every pattern and every index at or past the number of
  classes, in a build with \<^verbatim>\<open>NDEBUG\<close> (assertions compiled out) \<^verbatim>\<open>glyphInClass\<close> returns
  false, \<^verbatim>\<open>classSize\<close> returns 0, and \<^verbatim>\<open>sortClass\<close> and \<^verbatim>\<open>makeClassUnique\<close> return with the
  pattern (and the context) unchanged; in a build with assertions each of the four
  calls stops at \<^verbatim>\<open>assert(idx < classes.size())\<close>. In neither build is the vector of
  classes read outside its bounds.
\<close>

theorem GPat_accessors_out_of_range:
  assumes "length (classes p) \<le> unat idx"
  shows "GPat_glyphInClass True p g idx = Inr False \<and>
         GPat_classSize True p idx = Inr 0 \<and>
         GPat_sortClass True p idx = Inr p \<and>
         GPat_makeClassUnique makeUnique True h p idx report = Inr (h, p) \<and>
         GPat_glyphInClass False p g idx = Inl AssertionFailed \<and>
         GPat_classSize False p idx = Inl AssertionFailed \<and>
         GPat_sortClass False p idx = Inl AssertionFailed \<and>
         GPat_makeClassUnique makeUnique False h p idx report = Inl AssertionFailed"
  using assms
  by (simp add: GPat_glyphInClass_def GPat_classSize_def GPat_sortClass_def
      GPat_makeClassUnique_def assert_ok_def)

text \<open>A pattern of one class, asked about position 1.\<close>

theorem GPat_accessors_out_of_range_witness:
  "GPat_glyphInClass True pattern_one_class 5 1 = Inr False \<and>
   GPat_classSize True pattern_one_class 1 = Inr 0 \<and>
   GPat_sortClass True pattern_one_class 1 = Inr pattern_one_class \<and>
   GPat_makeClassUnique (\<lambda>h c r. (h, c)) True () pattern_one_class 1 False
     = Inr ((), pattern_one_class) \<and>
   GPat_sortClass False pattern_one_class 1 = Inl AssertionFailed"
  using GPat_accessors_out_of_range
      [of pattern_one_class 1 5 "\<lambda>h c r. (h, c)" "()" False]
  by (simp add: pattern_one_class_def)

text \<open>
  The claim C10 as stated fails in a build with assertions: at position 1 of a pattern
  of one class, \<^verbatim>\<open>glyphInClass\<close> and \<^verbatim>\<open>classSize\<close> do not return false and 0, the
  assertion stops them.
\<close>

theorem GPat_accessors_assert_counterexample:
  "GPat_glyphInClass False pattern_one_class 5 1 = Inl AssertionFailed \<and>
   GPat_classSize False pattern_one_class 1 = Inl AssertionFailed"
  by (simp add: GPat_glyphInClass_def GPat_classSize_def assert_ok_def pattern_one_class_def)

subsection \<open>The cross-product iterator\<close>

text \<open>Index tuples: every digit in range, one tuple per number, in colexicographic order.\<close>

lemma length_index_tuple [simp]: "length (index_tuple ns k) = length ns"
  by (induction ns arbitrary: k) auto

lemma index_tuple_0: "index_tuple ns 0 = replicate (length ns) 0"
  by (induction ns) auto

lemma index_tuple_less:
  "\<forall>n\<in>set ns. 0 < n \<Longrightarrow> list_all2 (<) (index_tuple ns k) ns"
  by (induction ns arbitrary: k) auto

lemma tuple_value_index_tuple:
  "\<forall>n\<in>set ns. 0 < n \<Longrightarrow> k < prod_list ns \<Longrightarrow> tuple_value ns (index_tuple ns k) = k"
proof (induction ns arbitrary: k)
  case Nil
  then show ?case by simp
next
  case (Cons n ns)
  from Cons.prems have "k div n < prod_list ns"
    by (simp add: less_mult_imp_div_less mult.commute)
  with Cons show ?case by simp
qed

lemma index_tuple_tuple_value:
  "list_all2 (<) t ns \<Longrightarrow>
     tuple_value ns t < prod_list ns \<and> index_tuple ns (tuple_value ns t) = t"
proof (induction t ns rule: list_all2_induct)
  case Nil
  then show ?case by simp
next
  case (Cons d ds n ns)
  let ?v = "tuple_value ns ds"
  from Cons have v: "?v < prod_list ns" and i: "index_tuple ns ?v = ds" by simp_all
  from v have "Suc ?v \<le> prod_list ns" by simp
  then have "n * Suc ?v \<le> n * prod_list ns" by (rule mult_le_mono2)
  with \<open>d < n\<close> have "d + n * ?v < n * prod_list ns" by simp
  with \<open>d < n\<close> i show ?case by simp
qed

lemma index_tuple_distinct:
  assumes "\<forall>n\<in>set ns. 0 < n"
  shows "distinct (map (index_tuple ns) [0..<prod_list ns])"
proof -
  have "inj_on (index_tuple ns) {0..<prod_list ns}"
    by (rule inj_on_inverseI [where g = "tuple_value ns"])
      (simp add: tuple_value_index_tuple assms)
  then show ?thesis by (simp add: distinct_map)
qed

lemma index_tuple_set:
  assumes "\<forall>n\<in>set ns. 0 < n"
  shows "set (map (index_tuple ns) [0..<prod_list ns]) = {t. list_all2 (<) t ns}"
proof (intro equalityI subsetI)
  fix t assume "t \<in> set (map (index_tuple ns) [0..<prod_list ns])"
  then show "t \<in> {t. list_all2 (<) t ns}"
    using index_tuple_less [OF assms] by auto
next
  fix t assume "t \<in> {t. list_all2 (<) t ns}"
  then have "list_all2 (<) t ns" by simp
  from index_tuple_tuple_value [OF this]
  have "tuple_value ns t \<in> set [0..<prod_list ns]" and "index_tuple ns (tuple_value ns t) = t"
    by simp_all
  then show "t \<in> set (map (index_tuple ns) [0..<prod_list ns])"
    by (metis image_eqI set_map)
qed

lemma index_tuple_colex:
  "\<forall>n\<in>set ns. 0 < n \<Longrightarrow> j < k \<Longrightarrow> k < prod_list ns \<Longrightarrow>
     (rev (index_tuple ns j), rev (index_tuple ns k)) \<in> lexord {(a, b). a < b}"
proof (induction ns arbitrary: j k)
  case Nil
  then show ?case by simp
next
  case (Cons n ns)
  from Cons.prems have n: "0 < n" and kd: "k div n < prod_list ns"
    by (simp_all add: less_mult_imp_div_less mult.commute)
  from \<open>j < k\<close> have le: "j div n \<le> k div n" by (simp add: div_le_mono)
  show ?case
  proof (cases "j div n < k div n")
    case True
    with Cons kd have "(rev (index_tuple ns (j div n)), rev (index_tuple ns (k div n)))
        \<in> lexord {(a, b). a < b}" by simp
    then show ?thesis by (simp add: lexord_sufI)
  next
    case False
    with le have eq: "j div n = k div n" by simp
    have "j mod n < k mod n"
    proof -
      have "j = j div n * n + j mod n" "k = k div n * n + k mod n" by simp_all
      with eq \<open>j < k\<close> show ?thesis by (metis nat_add_left_cancel_less)
    qed
    then show ?thesis by (simp add: eq lexord_append_leftI)
  qed
qed

lemma inc_tuple_index_tuple:
  "\<forall>n\<in>set ns. 0 < n \<Longrightarrow> k < prod_list ns \<Longrightarrow>
     fst (inc_tuple ns (index_tuple ns k)) = index_tuple ns (Suc k mod prod_list ns) \<and>
     snd (inc_tuple ns (index_tuple ns k)) \<le> length ns \<and>
     (snd (inc_tuple ns (index_tuple ns k)) = length ns \<longleftrightarrow> Suc k = prod_list ns)"
proof (induction ns arbitrary: k)
  case Nil
  then show ?case by simp
next
  case (Cons n ns)
  let ?N = "prod_list ns"
  from Cons.prems have n: "0 < n" and k: "k < n * ?N" and pos: "\<forall>n\<in>set ns. 0 < n"
    and kd: "k div n < ?N"
    by (simp_all add: less_mult_imp_div_less mult.commute)
  show ?case
  proof (cases "k mod n + 1 < n")
    case True
    have "Suc k mod n = Suc (k mod n)" using True by (simp add: mod_Suc)
    moreover have "Suc k div n = k div n" using True by (simp add: div_Suc mod_Suc split: if_splits)
    moreover have "Suc k < n * ?N"
    proof (rule ccontr)
      assume "\<not> Suc k < n * ?N"
      with k have "Suc k = n * ?N" by simp
      then have "Suc k mod n = 0" by simp
      with \<open>Suc k mod n = Suc (k mod n)\<close> show False by simp
    qed
    ultimately show ?thesis using True by simp
  next
    case False
    with n have km: "k mod n = n - 1"
      by (metis Suc_eq_plus1 Suc_lessI mod_less_divisor diff_Suc_1)
    have sk: "Suc k = n * Suc (k div n)"
    proof -
      have "k = k div n * n + k mod n" by simp
      with km n show ?thesis by (simp add: mult.commute)
    qed
    have m: "Suc k mod (n * ?N) = n * (Suc (k div n) mod ?N)"
      unfolding sk by (rule mult_mod_right [symmetric])
    from Cons.IH [OF pos kd]
    have ih1: "fst (inc_tuple ns (index_tuple ns (k div n))) = index_tuple ns (Suc (k div n) mod ?N)"
      and ih2: "snd (inc_tuple ns (index_tuple ns (k div n))) \<le> length ns"
      and ih3: "snd (inc_tuple ns (index_tuple ns (k div n))) = length ns \<longleftrightarrow> Suc (k div n) = ?N"
      by simp_all
    have e: "Suc k = n * ?N \<longleftrightarrow> Suc (k div n) = ?N"
      unfolding sk using n by (simp del: mult_Suc_right)
    show ?thesis
      using False n ih1 ih2 ih3 e by (simp add: m case_prod_beta)
  qed
qed

text \<open>The two loops of \<^verbatim>\<open>next\<close> against the arithmetic on tuples.\<close>

lemma class_sizes_simps [simp]:
  "class_sizes [] = []"
  "class_sizes (c # cs) = length (glyphs c) # class_sizes cs"
  "length (class_sizes cs) = length cs"
  by (simp_all add: class_sizes_def)


lemma unat_of_nat_16: "d < 65536 \<Longrightarrow> unat (of_nat d :: 16 word) = d"
  by (simp add: unat_of_nat)

lemma advance_indices_inc_tuple:
  "list_all2 (<) t (class_sizes csuf) \<Longrightarrow> \<forall>c\<in>set csuf. length (glyphs c) < 65536 \<Longrightarrow>
   length cpre = length ipre \<Longrightarrow>
   advance_indices (cpre @ csuf) (ipre @ map of_nat t) (length ipre) =
     Inr (ipre @ map of_nat (fst (inc_tuple (class_sizes csuf) t)),
          length ipre + snd (inc_tuple (class_sizes csuf) t))"
proof (induction csuf arbitrary: t cpre ipre)
  case Nil
  then show ?case
    by (subst advance_indices.simps) simp
next
  case (Cons c csuf)
  from Cons.prems(1) obtain d ds where t: "t = d # ds" and d: "d < length (glyphs c)"
    and ds: "list_all2 (<) ds (class_sizes csuf)"
    by (auto simp add: list_all2_Cons2)
  from Cons.prems(2) have c: "length (glyphs c) < 65536"
    and cs: "\<forall>c\<in>set csuf. length (glyphs c) < 65536" by simp_all
  from d c have u: "unat (of_nat d + 1 :: 16 word) = d + 1"
    using unat_of_nat_16 [of "Suc d"] by (simp add: add.commute)
  have len: "length (cpre @ [c]) = length (ipre @ [0::16 word])"
    using Cons.prems(3) by simp
  have nth_c: "(cpre @ c # csuf) ! length ipre = c"
    using Cons.prems(3) by (metis nth_append_length)
  show ?case
  proof (cases "d + 1 < length (glyphs c)")
    case True
    then show ?thesis
      by (subst advance_indices.simps)
        (simp add: t u nth_c Cons.prems(3) Let_def)
  next
    case False
    have "advance_indices ((cpre @ [c]) @ csuf) ((ipre @ [0]) @ map of_nat ds) (length (ipre @ [0::16 word])) =
       Inr ((ipre @ [0]) @ map of_nat (fst (inc_tuple (class_sizes csuf) ds)),
          length (ipre @ [0::16 word]) + snd (inc_tuple (class_sizes csuf) ds))"
      by (rule Cons.IH [OF ds cs len])
    then have ih: "advance_indices (cpre @ c # csuf) (ipre @ 0 # map of_nat ds) (Suc (length ipre)) =
       Inr (ipre @ 0 # map of_nat (fst (inc_tuple (class_sizes csuf) ds)),
          Suc (length ipre + snd (inc_tuple (class_sizes csuf) ds)))"
      by simp
    show ?thesis
      using False
      by (subst advance_indices.simps)
        (simp add: t u nth_c Cons.prems(3) Let_def ih case_prod_beta)
  qed
qed

lemma collect_gids_tuple_gids:
  "list_all2 (<) t (class_sizes csuf) \<Longrightarrow> \<forall>c\<in>set csuf. length (glyphs c) < 65536 \<Longrightarrow>
   length cpre = length ipre \<Longrightarrow>
   collect_gids (cpre @ csuf) (ipre @ map of_nat t) (length ipre) acc =
     Inr (acc @ tuple_gids csuf t)"
proof (induction csuf arbitrary: t cpre ipre acc)
  case Nil
  then show ?case
    by (subst collect_gids.simps) (simp add: tuple_gids_def)
next
  case (Cons c csuf)
  from Cons.prems(1) obtain d ds where t: "t = d # ds" and d: "d < length (glyphs c)"
    and ds: "list_all2 (<) ds (class_sizes csuf)"
    by (auto simp add: list_all2_Cons2)
  from Cons.prems(2) have c: "length (glyphs c) < 65536"
    and cs: "\<forall>c\<in>set csuf. length (glyphs c) < 65536" by simp_all
  from d c have u: "unat (of_nat d :: 16 word) = d"
    using unat_of_nat_16 [of d] by simp
  have len: "length (cpre @ [c]) = length (ipre @ [of_nat d :: 16 word])"
    using Cons.prems(3) by simp
  have nth_c: "(cpre @ c # csuf) ! length ipre = c"
    using Cons.prems(3) by (metis nth_append_length)
  have "collect_gids ((cpre @ [c]) @ csuf) ((ipre @ [of_nat d]) @ map of_nat ds)
          (length (ipre @ [of_nat d :: 16 word])) (acc @ [gid (glyphs c ! d)]) =
        Inr ((acc @ [gid (glyphs c ! d)]) @ tuple_gids csuf ds)"
    by (rule Cons.IH [OF ds cs len])
  then have ih: "collect_gids (cpre @ c # csuf) (ipre @ of_nat d # map of_nat ds)
          (Suc (length ipre)) (acc @ [gid (glyphs c ! d)]) =
        Inr (acc @ gid (glyphs c ! d) # tuple_gids csuf ds)"
    by simp
  show ?case
    by (subst collect_gids.simps)
      (simp add: t u d nth_c Cons.prems(3) vector_at_def ih tuple_gids_def)
qed

text \<open>One call of \<^verbatim>\<open>next\<close>, the first and the later ones, and a run of calls.\<close>

lemma class_sizes_pos:
  "\<forall>c\<in>set cs. glyphs c \<noteq> [] \<and> length (glyphs c) < 65536 \<Longrightarrow> \<forall>n\<in>set (class_sizes cs). 0 < n"
  by (auto simp add: class_sizes_def)

lemma prod_list_pos: "\<forall>n\<in>set ns. 0 < n \<Longrightarrow> 0 < prod_list ns"
  for ns :: "nat list"
  by (induction ns) auto

lemma next_first:
  assumes "\<forall>c\<in>set cs. glyphs c \<noteq> [] \<and> length (glyphs c) < 65536"
  shows "CrossProductIterator_next ndebug (CrossProductIterator_init cs) g =
           Inr (True, tuple_gids cs (index_tuple (class_sizes cs) 0), iterator_at cs 0)"
proof -
  have ix: "replicate (length cs) (0::16 word) = map of_nat (index_tuple (class_sizes cs) 0)"
    by (simp add: index_tuple_0)
  have "collect_gids ([] @ cs) ([] @ map of_nat (index_tuple (class_sizes cs) 0)) (length ([]::16 word list)) []
          = Inr ([] @ tuple_gids cs (index_tuple (class_sizes cs) 0))"
    using assms by (intro collect_gids_tuple_gids index_tuple_less class_sizes_pos) simp_all
  then show ?thesis
    by (simp add: CrossProductIterator_next_def CrossProductIterator_init_def assert_ok_def
        yield_gids_def iterator_at_def ix)
qed

lemma next_later:
  assumes v: "\<forall>c\<in>set cs. glyphs c \<noteq> [] \<and> length (glyphs c) < 65536"
    and k: "k < prod_list (class_sizes cs)"
  shows "CrossProductIterator_next ndebug (iterator_at cs k) g =
           (if Suc k = prod_list (class_sizes cs) then Inr (False, g, iterator_at cs 0)
            else Inr (True, tuple_gids cs (index_tuple (class_sizes cs) (Suc k)),
                      iterator_at cs (Suc k)))"
proof -
  let ?ns = "class_sizes cs"
  let ?t = "index_tuple ?ns k"
  have pos: "\<forall>n\<in>set ?ns. 0 < n" using v by (rule class_sizes_pos)
  have small: "\<forall>c\<in>set cs. length (glyphs c) < 65536" using v by simp
  have adv: "advance_indices ([] @ cs) ([] @ map of_nat ?t) (length ([]::16 word list)) =
      Inr ([] @ map of_nat (fst (inc_tuple ?ns ?t)), length ([]::16 word list) + snd (inc_tuple ?ns ?t))"
    using small by (intro advance_indices_inc_tuple index_tuple_less pos) simp_all
  from inc_tuple_index_tuple [OF pos k]
  have f: "fst (inc_tuple ?ns ?t) = index_tuple ?ns (Suc k mod prod_list ?ns)"
    and s: "snd (inc_tuple ?ns ?t) = length ?ns \<longleftrightarrow> Suc k = prod_list ?ns"
    by simp_all
  show ?thesis
  proof (cases "Suc k = prod_list ?ns")
    case True
    then show ?thesis
      using adv f s
      by (simp add: CrossProductIterator_next_def iterator_at_def assert_ok_def)
  next
    case False
    with k have lt: "Suc k < prod_list ?ns" by simp
    have "collect_gids ([] @ cs) ([] @ map of_nat (index_tuple ?ns (Suc k))) (length ([]::16 word list)) []
          = Inr ([] @ tuple_gids cs (index_tuple ?ns (Suc k)))"
      using small by (intro collect_gids_tuple_gids index_tuple_less pos) simp_all
    then show ?thesis
      using adv f s False lt
      by (simp add: CrossProductIterator_next_def iterator_at_def assert_ok_def yield_gids_def)
  qed
qed

lemma calls_later:
  assumes v: "\<forall>c\<in>set cs. glyphs c \<noteq> [] \<and> length (glyphs c) < 65536"
  shows "Suc (k + m) = prod_list (class_sizes cs) \<Longrightarrow>
     cross_product_calls ndebug (Suc m) (iterator_at cs k) g =
       map (\<lambda>j. Inr (True, tuple_gids cs (index_tuple (class_sizes cs) j)))
           [Suc k..<prod_list (class_sizes cs)] @
       [Inr (False, if m = 0 then g
                    else tuple_gids cs (index_tuple (class_sizes cs) (prod_list (class_sizes cs) - 1)))]"
proof (induction m arbitrary: k g)
  case 0
  then show ?case
    using next_later [OF v, of k ndebug g] by simp
next
  case (Suc m)
  let ?N = "prod_list (class_sizes cs)"
  from Suc.prems have k: "k < ?N" and nk: "Suc k \<noteq> ?N" and sk: "Suc (Suc k + m) = ?N"
    and lt: "Suc k < ?N" by simp_all
  have step: "CrossProductIterator_next ndebug (iterator_at cs k) g =
      Inr (True, tuple_gids cs (index_tuple (class_sizes cs) (Suc k)), iterator_at cs (Suc k))"
    using next_later [OF v k, of ndebug g] nk by simp
  have up: "[Suc k..<?N] = Suc k # [Suc (Suc k)..<?N]"
    using lt by (simp add: upt_conv_Cons)
  have last: "m = 0 \<Longrightarrow> Suc k = ?N - 1" using sk by simp
  show ?case
    using Suc.IH [OF sk, of "tuple_gids cs (index_tuple (class_sizes cs) (Suc k))"] last
    by (subst cross_product_calls.simps) (auto simp add: step up simp del: cross_product_calls.simps)
qed

text \<open>
  C1, as the code has it: for every sequence of classes that are non-empty and hold at
  most 65535 glyph records each, with \<open>N\<close> the product of their sizes, the first \<open>N\<close>
  calls of \<^verbatim>\<open>next()\<close> return true and yield, call by call, the GID tuples at the index
  tuples \<open>index_tuple ns 0, ..., index_tuple ns (N - 1)\<close>, and call \<open>N + 1\<close> returns
  false and leaves the vector as the last tuple. The first index tuple is all zeros;
  the \<open>N\<close> index tuples are pairwise different and are exactly the tuples with every
  index below the size of its class, so each tuple of the product is yielded once; and
  they come in colexicographic order: the index of the first class runs fastest, that
  is, the tuples read backwards are in lexicographic order. Nothing is said about the
  calls after the first false.
\<close>

theorem cross_product_colex_enumeration:
  assumes v: "\<forall>c\<in>set cs. glyphs c \<noteq> [] \<and> length (glyphs c) < 65536"
  shows "cross_product_calls ndebug (Suc (prod_list (class_sizes cs)))
             (CrossProductIterator_init cs) g =
           map (\<lambda>k. Inr (True, tuple_gids cs (index_tuple (class_sizes cs) k)))
               [0..<prod_list (class_sizes cs)] @
           [Inr (False, tuple_gids cs
                   (index_tuple (class_sizes cs) (prod_list (class_sizes cs) - 1)))] \<and>
         index_tuple (class_sizes cs) 0 = replicate (length cs) 0 \<and>
         distinct (map (index_tuple (class_sizes cs)) [0..<prod_list (class_sizes cs)]) \<and>
         set (map (index_tuple (class_sizes cs)) [0..<prod_list (class_sizes cs)]) =
           {t. list_all2 (<) t (class_sizes cs)} \<and>
         (\<forall>j k. j < k \<and> k < prod_list (class_sizes cs) \<longrightarrow>
            (rev (index_tuple (class_sizes cs) j), rev (index_tuple (class_sizes cs) k))
              \<in> lexord {(a, b). a < b})"
proof -
  let ?ns = "class_sizes cs"
  let ?N = "prod_list ?ns"
  have pos: "\<forall>n\<in>set ?ns. 0 < n" using v by (rule class_sizes_pos)
  then have N: "0 < ?N" by (rule prod_list_pos)
  then obtain m where m: "?N = Suc m" by (cases ?N) auto
  have up: "[0..<?N] = 0 # [Suc 0..<?N]" using N by (simp add: upt_conv_Cons)
  have later: "cross_product_calls ndebug ?N (iterator_at cs 0)
        (tuple_gids cs (index_tuple ?ns 0)) =
       map (\<lambda>j. Inr (True, tuple_gids cs (index_tuple ?ns j))) [Suc 0..<?N] @
       [Inr (False, tuple_gids cs (index_tuple ?ns (?N - 1)))]"
    using calls_later [OF v, of 0 m ndebug "tuple_gids cs (index_tuple ?ns 0)"] m
    by (cases "m = 0") simp_all
  have start: "cross_product_calls ndebug (Suc ?N) (CrossProductIterator_init cs) g =
      Inr (True, tuple_gids cs (index_tuple ?ns 0)) #
      cross_product_calls ndebug ?N (iterator_at cs 0) (tuple_gids cs (index_tuple ?ns 0))"
    by (simp add: next_first [OF v])
  have run: "cross_product_calls ndebug (Suc ?N) (CrossProductIterator_init cs) g =
           map (\<lambda>k. Inr (True, tuple_gids cs (index_tuple ?ns k))) [0..<?N] @
           [Inr (False, tuple_gids cs (index_tuple ?ns (?N - 1)))]"
    unfolding start later up by simp
  have z: "index_tuple ?ns 0 = replicate (length cs) 0"
    by (simp add: index_tuple_0)
  have ord: "\<forall>j k. j < k \<and> k < ?N \<longrightarrow>
            (rev (index_tuple ?ns j), rev (index_tuple ?ns k)) \<in> lexord {(a, b). a < b}"
    using index_tuple_colex [OF pos] by blast
  from run z index_tuple_distinct [OF pos] index_tuple_set [OF pos] ord
  show ?thesis by blast
qed

text \<open>Two classes of two glyphs each: four tuples and the false.\<close>

theorem cross_product_colex_enumeration_witness:
  "cross_product_calls True 5 (CrossProductIterator_init classes_2x2) [] =
     [Inr (True, [1, 3]), Inr (True, [2, 3]), Inr (True, [1, 4]), Inr (True, [2, 4]),
      Inr (False, [2, 4])]"
proof -
  have h: "\<forall>c\<in>set classes_2x2. glyphs c \<noteq> [] \<and> length (glyphs c) < 65536"
    by (simp add: classes_2x2_def ClassRec_of_gids_def ClassRec_with_def)
  have n: "Suc (prod_list (class_sizes classes_2x2)) = 5"
    by (simp add: classes_2x2_def ClassRec_of_gids_def ClassRec_with_def)
  have r: "map (\<lambda>k. Inr (True, tuple_gids classes_2x2 (index_tuple (class_sizes classes_2x2) k)))
               [0..<prod_list (class_sizes classes_2x2)] @
           [Inr (False, tuple_gids classes_2x2
                   (index_tuple (class_sizes classes_2x2) (prod_list (class_sizes classes_2x2) - 1)))]
      = [Inr (True, [1, 3]), Inr (True, [2, 3]), Inr (True, [1, 4]), Inr (True, [2, 4]),
         Inr (False, [2, 4 :: GID]) :: failure + bool \<times> GID list]"
    by code_simp
  from cross_product_colex_enumeration [OF h, of True "[]"]
  show ?thesis unfolding n r by simp
qed

text \<open>
  The claim C1 as stated fails on the same two classes, [1, 2] and [3, 4]. The second
  tuple yielded is [2, 3], at the indices (1, 0), where the lexicographic order of the
  index tuples has (0, 1), the tuple [1, 4]; and the sixth call, the one after the call
  that returned false, returns true with the tuple [2, 3] again.
\<close>

theorem cross_product_order_restart_counterexample:
  "cross_product_calls True 6 (CrossProductIterator_init classes_2x2) [] =
     [Inr (True, [1, 3]), Inr (True, [2, 3]), Inr (True, [1, 4]), Inr (True, [2, 4]),
      Inr (False, [2, 4]), Inr (True, [2, 3])]"
  by code_simp

text \<open>
  Why the sizes are bounded: the indices are \<^verbatim>\<open>uint16_t\<close>. In a class of 65536 glyph
  records the index 65535 is the last one; the increment wraps to 0, which is below the
  size, so \<^verbatim>\<open>next\<close> returns true once more instead of carrying on to the next class.
\<close>

lemma CrossProductIterator_next_wraps_at_65536:
  "CrossProductIterator_next ndebug
     \<lparr>cpi_classes = [ClassRec_with (replicate 65536 (GlyphRec_of 1))],
      indices = [65535], first = False\<rparr> g =
   Inr (True, [1],
     \<lparr>cpi_classes = [ClassRec_with (replicate 65536 (GlyphRec_of 1))],
      indices = [0], first = False\<rparr>)"
  by (simp add: CrossProductIterator_next_def assert_ok_def advance_indices.simps
      collect_gids.simps yield_gids_def vector_at_def ClassRec_with_def GlyphRec_of_def)

end
